theory Spec2Isabelle
  imports Complex_Main "HOL-Library.Word" "HOL-Library.Monad_Syntax" "HOL-Library.Sublist"
    "HOL-Library.Log_Nat"
begin

section \<open>The decision forest consumed by ForestNode\<close>

text \<open>
  The interface \<^verbatim>\<open>ForestNode.tcc\<close> uses of \<^verbatim>\<open>predictors::ForestPredictor\<close>: the getters
  become the selectors of three datatypes. The template parameters \<^verbatim>\<open>SplitRuleType\<close> and
  \<^verbatim>\<open>EdgePredictorType\<close> are the type variables \<open>'sr\<close> and \<open>'ep\<close>; what they compute on an
  input vector is passed to the semantics as two functions \<open>sp\<close> and \<open>epf\<close>. A
  \<^verbatim>\<open>double\<close> is a \<open>real\<close> (exact arithmetic), a \<^verbatim>\<open>size_t\<close> is a \<open>nat\<close>.
\<close>

datatype 'ep Edge =
  Edge (GetPredictor: 'ep) (IsTargetInterior: bool) (GetTargetNodeIndex: nat)

datatype ('sr, 'ep) InteriorNode =
  InteriorNode (GetSplitRule: 'sr) (GetOutgoingEdges: "'ep Edge list") (GetFirstEdgeIndex: nat)

datatype ('sr, 'ep) ForestPredictor =
  ForestPredictor (GetInteriorNodes: "('sr, 'ep) InteriorNode list")
    (GetRootIndices: "nat list") (GetBias: real) (NumEdges: nat)

definition NumTrees :: "('sr, 'ep) ForestPredictor \<Rightarrow> nat" where
  "NumTrees f = length (GetRootIndices f)"

definition GetRootIndex :: "('sr, 'ep) ForestPredictor \<Rightarrow> nat \<Rightarrow> nat" where
  "GetRootIndex f i = GetRootIndices f ! i"

section \<open>The dataflow graph\<close>

text \<open>
  A PortElements is an ordered sequence of references (node, output port, element). A node
  of the target model is identified by its position in the model's node list, the order in
  which \<^verbatim>\<open>AddNode\<close> created it.
\<close>

type_synonym PortElement = "nat \<times> nat \<times> nat"
type_synonym PortElements = "PortElement list"

datatype val = D real | B bool

datatype ('sr, 'ep) Node =
    ConstantNode "real list"
  | BinaryOperationNode_add PortElements PortElements
  | UnaryOperationNode_logicalNot PortElements
  | ElementSelectorNode PortElements PortElements
  | MultiplexorNode PortElements PortElements nat
  | SumNode PortElements
  | SplitRuleNode 'sr PortElements
  | EdgePredictorNode 'ep PortElements
  | ForestNode "('sr, 'ep) ForestPredictor" PortElements

text \<open>
  The element count of every output port is fixed at construction. For ForestNode these are
  the three sizes of the constructor in \<^verbatim>\<open>ForestNode.tcc\<close> (1, NumTrees, NumEdges).

  Modelled from the spec: the constructors of the primitive nodes are not among the sources;
  their single output port has the size of the primitive's result (the input size for the
  element-wise unary and binary operations, the requested size for the multiplexor, one
  element otherwise).
\<close>

fun OutputSize :: "('sr, 'ep) Node \<Rightarrow> nat \<Rightarrow> nat" where
  "OutputSize (ConstantNode vs) p = (if p = 0 then length vs else 0)"
| "OutputSize (BinaryOperationNode_add a b) p = (if p = 0 then length a else 0)"
| "OutputSize (UnaryOperationNode_logicalNot a) p = (if p = 0 then length a else 0)"
| "OutputSize (ElementSelectorNode a s) p = (if p = 0 then 1 else 0)"
| "OutputSize (MultiplexorNode a s n) p = (if p = 0 then n else 0)"
| "OutputSize (SumNode a) p = (if p = 0 then 1 else 0)"
| "OutputSize (SplitRuleNode r a) p = (if p = 0 then 1 else 0)"
| "OutputSize (EdgePredictorNode e a) p = (if p = 0 then 1 else 0)"
| "OutputSize (ForestNode f a) p =
     (if p = 0 then 1 else if p = 1 then NumTrees f else if p = 2 then NumEdges f else 0)"

text \<open>A reference to a created node: its identity and the node, as the pointer \<^verbatim>\<open>AddNode\<close> returns.\<close>

type_synonym ('sr, 'ep) NodeRef = "nat \<times> ('sr, 'ep) Node"

definition PortRange :: "nat \<Rightarrow> nat \<Rightarrow> nat \<Rightarrow> PortElements" where
  "PortRange n p k = map (\<lambda>i. (n, p, i)) [0..<k]"

text \<open>\<^verbatim>\<open>{node->output}\<close>: all elements of an output port (port 0 is \<^verbatim>\<open>output\<close>).\<close>

definition OutputPort :: "('sr, 'ep) NodeRef \<Rightarrow> nat \<Rightarrow> PortElements" where
  "OutputPort r p = PortRange (fst r) p (OutputSize (snd r) p)"

text \<open>\<^verbatim>\<open>{node->output, i}\<close>: one element of the output port.\<close>

definition OutputElement :: "('sr, 'ep) NodeRef \<Rightarrow> nat \<Rightarrow> PortElements" where
  "OutputElement r i = [(fst r, 0, i)]"

section \<open>The ModelTransformer\<close>

datatype OutputPortName = Port_output | Port_treeOutputs | Port_edgeIndicatorVector

text \<open>
  The transformer owns the target model and the append-only table from the old output
  ports (old node, port name) to PortElements of the target model.
\<close>

record ('sr, 'ep) ModelTransformer =
  model :: "('sr, 'ep) Node list"
  outputMap :: "((nat \<times> OutputPortName) \<times> PortElements) list"

definition AddNode ::
  "('sr, 'ep) ModelTransformer \<Rightarrow> ('sr, 'ep) Node \<Rightarrow> ('sr, 'ep) NodeRef \<times> ('sr, 'ep) ModelTransformer" where
  "AddNode t n = ((length (model t), n), t\<lparr>model := model t @ [n]\<rparr>)"

definition MapNodeOutput ::
  "('sr, 'ep) ModelTransformer \<Rightarrow> nat \<times> OutputPortName \<Rightarrow> PortElements \<Rightarrow> ('sr, 'ep) ModelTransformer" where
  "MapNodeOutput t old new = t\<lparr>outputMap := outputMap t @ [(old, new)]\<rparr>"

text \<open>
  Modelled from the spec: \<^verbatim>\<open>AddNodeToModelTransformer\<close> is not among the sources. It builds the
  primitive subgraph that realises an edge predictor or a split rule on the transformed
  input and returns the node carrying the result; here that subgraph is a single node.
\<close>

definition AddEdgePredictorToModelTransformer ::
  "PortElements \<Rightarrow> 'ep \<Rightarrow> ('sr, 'ep) ModelTransformer \<Rightarrow> ('sr, 'ep) NodeRef \<times> ('sr, 'ep) ModelTransformer" where
  "AddEdgePredictorToModelTransformer inp e t = AddNode t (EdgePredictorNode e inp)"

definition AddSplitRuleToModelTransformer ::
  "PortElements \<Rightarrow> 'sr \<Rightarrow> ('sr, 'ep) ModelTransformer \<Rightarrow> ('sr, 'ep) NodeRef \<times> ('sr, 'ep) ModelTransformer" where
  "AddSplitRuleToModelTransformer inp r t = AddNode t (SplitRuleNode r inp)"

section \<open>ForestNode::Copy and ForestNode::RefineNode\<close>

text \<open>
  \<^verbatim>\<open>std::vector::operator[]\<close> outside the vector is undefined behaviour: the model has no
  result there (\<open>None\<close>).
\<close>

definition vec_read :: "'a list \<Rightarrow> nat \<Rightarrow> 'a option" where
  "vec_read xs i = (if i < length xs then Some (xs ! i) else None)"

definition vec_write :: "'a list \<Rightarrow> nat \<Rightarrow> 'a \<Rightarrow> 'a list option" where
  "vec_write xs i v = (if i < length xs then Some (xs[i := v]) else None)"

text \<open>An \<^verbatim>\<open>int\<close> used as index converts to \<^verbatim>\<open>size_t\<close>: a negative one is far outside.\<close>

definition vec_read_int :: "'a list \<Rightarrow> int \<Rightarrow> 'a option" where
  "vec_read_int xs i = (if 0 \<le> i then vec_read xs (nat i) else None)"

text \<open>\<^verbatim>\<open>static_cast<int>\<close> of a \<^verbatim>\<open>size_t\<close>: the low 32 bits, read as two's complement.\<close>

definition static_cast_int :: "nat \<Rightarrow> int" where
  "static_cast_int n = sint (word_of_nat n :: 32 word)"

fun foldM :: "('a \<Rightarrow> 's \<Rightarrow> 's option) \<Rightarrow> 'a list \<Rightarrow> 's \<Rightarrow> 's option" where
  "foldM body [] s = Some s"
| "foldM body (x # xs) s = Option.bind (body x s) (foldM body xs)"

text \<open>\<^verbatim>\<open>TransformPortElements(_input.GetPortElements())\<close> is the parameter \<open>inp\<close>; \<open>self\<close> is the old node.\<close>

definition Copy ::
  "nat \<Rightarrow> ('sr, 'ep) ForestPredictor \<Rightarrow> PortElements \<Rightarrow> ('sr, 'ep) ModelTransformer \<Rightarrow> ('sr, 'ep) ModelTransformer" where
  "Copy self f inp t =
     (let (newNode, t1) = AddNode t (ForestNode f inp);
          t2 = MapNodeOutput t1 (self, Port_output) (OutputPort newNode 0);
          t3 = MapNodeOutput t2 (self, Port_treeOutputs) (OutputPort newNode 1)
      in MapNodeOutput t3 (self, Port_edgeIndicatorVector) (OutputPort newNode 2))"

text \<open>Phase A, the inner loop over the outgoing edges (source lines 54 to 70).\<close>

definition edgeStep ::
  "PortElements \<Rightarrow> PortElements list \<Rightarrow> 'ep Edge \<Rightarrow>
   ('sr, 'ep) ModelTransformer \<times> PortElements \<Rightarrow> (('sr, 'ep) ModelTransformer \<times> PortElements) option" where
  "edgeStep inp interiorNodeSubModels e s =
     (let (t, edgeOutputs) = s;
          (edgePredictorNode, t1) = AddEdgePredictorToModelTransformer inp (GetPredictor e) t
      in if IsTargetInterior e then
           do {
             elements \<leftarrow> vec_read interiorNodeSubModels (GetTargetNodeIndex e);
             let (sumNode, t2) =
               AddNode t1 (BinaryOperationNode_add (OutputPort edgePredictorNode 0) elements);
             Some (t2, edgeOutputs @ OutputPort sumNode 0)
           }
         else Some (t1, edgeOutputs @ OutputPort edgePredictorNode 0))"

text \<open>
  The state of Phase A: the transformer, \<^verbatim>\<open>interiorNodeSplitIndicators\<close> and
  \<^verbatim>\<open>interiorNodeSubModels\<close>. A default-constructed PortElements is the empty list.
\<close>

type_synonym ('sr, 'ep) stateA =
  "('sr, 'ep) ModelTransformer \<times> PortElements list \<times> PortElements list"

text \<open>Phase A, one iteration of the outer loop (source lines 49 to 79).\<close>

definition phaseA_body ::
  "('sr, 'ep) ForestPredictor \<Rightarrow> PortElements \<Rightarrow> nat \<Rightarrow> ('sr, 'ep) stateA \<Rightarrow> ('sr, 'ep) stateA option" where
  "phaseA_body f inp nodeIndex s =
     (let (t, interiorNodeSplitIndicators, interiorNodeSubModels) = s in
      do {
        node \<leftarrow> vec_read (GetInteriorNodes f) nodeIndex;
        (t1, edgeOutputs) \<leftarrow> foldM (edgeStep inp interiorNodeSubModels) (GetOutgoingEdges node) (t, []);
        let (splitRuleNode, t2) = AddSplitRuleToModelTransformer inp (GetSplitRule node) t1;
        splitIndicators \<leftarrow> vec_write interiorNodeSplitIndicators nodeIndex (OutputPort splitRuleNode 0);
        let (selectorNode, t3) = AddNode t2 (ElementSelectorNode edgeOutputs (OutputPort splitRuleNode 0));
        subModels \<leftarrow> vec_write interiorNodeSubModels nodeIndex (OutputPort selectorNode 0);
        Some (t3, splitIndicators, subModels)
      })"

text \<open>
  The outer loop of Phase A counts an \<^verbatim>\<open>int\<close> down from \<^verbatim>\<open>(int)interiorNodes.size()-1\<close> to 0:
  \<open>phaseA_loop n\<close> visits the indices \<open>n - 1, ..., 0\<close>.
\<close>

definition phaseA_loop ::
  "('sr, 'ep) ForestPredictor \<Rightarrow> PortElements \<Rightarrow> nat \<Rightarrow> ('sr, 'ep) stateA \<Rightarrow> ('sr, 'ep) stateA option" where
  "phaseA_loop f inp n s = foldM (phaseA_body f inp) (rev [0..<n]) s"

definition phaseA ::
  "('sr, 'ep) ForestPredictor \<Rightarrow> PortElements \<Rightarrow> ('sr, 'ep) ModelTransformer \<Rightarrow> ('sr, 'ep) stateA option" where
  "phaseA f inp t =
     (let k = length (GetInteriorNodes f)
      in phaseA_loop f inp (nat (static_cast_int k)) (t, replicate k [], replicate k []))"

text \<open>
  The state of Phase B: the transformer, \<^verbatim>\<open>edgeIndicatorSubModels\<close> and
  \<^verbatim>\<open>incomingEdgeIndices\<close>.
\<close>

type_synonym ('sr, 'ep) stateB =
  "('sr, 'ep) ModelTransformer \<times> PortElements list \<times> int list"

text \<open>Phase B, the loop that records the parent of the interior children (source lines 116 to 124).\<close>

definition recordParent ::
  "nat \<Rightarrow> nat \<times> 'ep Edge \<Rightarrow> int list \<Rightarrow> int list option" where
  "recordParent firstEdgeIndex pe incomingEdgeIndices =
     (let (edgePosition, e) = pe
      in if IsTargetInterior e then
           vec_write incomingEdgeIndices (GetTargetNodeIndex e)
             (static_cast_int (firstEdgeIndex + edgePosition))
         else Some incomingEdgeIndices)"

text \<open>
  Phase B, the two indicators of the edges of a node (source lines 96 to 109): a root
  negates its own split indicator, another node multiplexes the indicator of its
  incoming edge.
\<close>

definition childIndicators ::
  "PortElements list \<Rightarrow> int \<Rightarrow> PortElements \<Rightarrow> ('sr, 'ep) ModelTransformer \<Rightarrow>
   (('sr, 'ep) ModelTransformer \<times> PortElements \<times> PortElements) option" where
  "childIndicators edgeIndicatorSubModels parentEdgeIndex edgeSelector t =
     (let isRoot = (parentEdgeIndex = - 1)
      in if isRoot then
           (let (notNode, t1) = AddNode t (UnaryOperationNode_logicalNot edgeSelector)
            in Some (t1, OutputPort notNode 0, edgeSelector))
         else
           do {
             parentIndicator \<leftarrow> vec_read_int edgeIndicatorSubModels parentEdgeIndex;
             let (muxNode, t1) = AddNode t (MultiplexorNode parentIndicator edgeSelector 2);
             Some (t1, OutputElement muxNode 0, OutputElement muxNode 1)
           })"

text \<open>Phase B, one iteration of the loop over the interior nodes (source lines 87 to 125).\<close>

definition phaseB_body ::
  "('sr, 'ep) ForestPredictor \<Rightarrow> PortElements list \<Rightarrow> nat \<Rightarrow> ('sr, 'ep) stateB \<Rightarrow> ('sr, 'ep) stateB option" where
  "phaseB_body f interiorNodeSplitIndicators nodeIndex s =
     (let (t, edgeIndicatorSubModels, incomingEdgeIndices) = s in
      do {
        parentEdgeIndex \<leftarrow> vec_read incomingEdgeIndices nodeIndex;
        node \<leftarrow> vec_read (GetInteriorNodes f) nodeIndex;
        edgeSelector \<leftarrow> vec_read interiorNodeSplitIndicators nodeIndex;
        (t1, child1Out, child2Out) \<leftarrow>
          childIndicators edgeIndicatorSubModels parentEdgeIndex edgeSelector t;
        let firstEdgeIndex = GetFirstEdgeIndex node;
        indicators1 \<leftarrow> vec_write edgeIndicatorSubModels firstEdgeIndex child1Out;
        indicators2 \<leftarrow> vec_write indicators1 (firstEdgeIndex + 1) child2Out;
        let childEdges = GetOutgoingEdges node;
        incoming \<leftarrow> foldM (recordParent firstEdgeIndex) (zip [0..<length childEdges] childEdges)
                      incomingEdgeIndices;
        Some (t1, indicators2, incoming)
      })"

definition phaseB_loop ::
  "('sr, 'ep) ForestPredictor \<Rightarrow> PortElements list \<Rightarrow> nat \<Rightarrow> ('sr, 'ep) stateB \<Rightarrow> ('sr, 'ep) stateB option" where
  "phaseB_loop f interiorNodeSplitIndicators n s =
     foldM (phaseB_body f interiorNodeSplitIndicators) [0..<n] s"

definition phaseB ::
  "('sr, 'ep) ForestPredictor \<Rightarrow> PortElements list \<Rightarrow> ('sr, 'ep) ModelTransformer \<Rightarrow> ('sr, 'ep) stateB option" where
  "phaseB f interiorNodeSplitIndicators t =
     (let k = length (GetInteriorNodes f)
      in phaseB_loop f interiorNodeSplitIndicators k (t, replicate (NumEdges f) [], replicate k (- 1)))"

text \<open>Phase C, the loop over the root indices (source lines 130 to 134).\<close>

definition appendTree :: "PortElements list \<Rightarrow> nat \<Rightarrow> PortElements \<Rightarrow> PortElements option" where
  "appendTree interiorNodeSubModels rootIndex treeSubModels =
     map_option (\<lambda>elements. treeSubModels @ elements) (vec_read interiorNodeSubModels rootIndex)"

text \<open>Phase C (source lines 126 to 147).\<close>

definition phaseC ::
  "nat \<Rightarrow> ('sr, 'ep) ForestPredictor \<Rightarrow> PortElements list \<Rightarrow> PortElements list \<Rightarrow>
   ('sr, 'ep) ModelTransformer \<Rightarrow> ('sr, 'ep) ModelTransformer option" where
  "phaseC self f interiorNodeSubModels edgeIndicatorSubModels t =
     (let edgeIndicatorVectorElements = concat edgeIndicatorSubModels in
      do {
        treeSubModels \<leftarrow> foldM (appendTree interiorNodeSubModels) (GetRootIndices f) [];
        let individualTreeOutputs = treeSubModels;
        let (biasNode, t1) = AddNode t (ConstantNode [GetBias f]);
        let treeSubModels' = treeSubModels @ OutputPort biasNode 0;
        let (sumNode, t2) = AddNode t1 (SumNode treeSubModels');
        let t3 = MapNodeOutput t2 (self, Port_output) (OutputPort sumNode 0);
        let t4 = MapNodeOutput t3 (self, Port_treeOutputs) individualTreeOutputs;
        Some (MapNodeOutput t4 (self, Port_edgeIndicatorVector) edgeIndicatorVectorElements)
      })"

definition RefineNode ::
  "nat \<Rightarrow> ('sr, 'ep) ForestPredictor \<Rightarrow> PortElements \<Rightarrow> ('sr, 'ep) ModelTransformer \<Rightarrow>
   ('sr, 'ep) ModelTransformer option" where
  "RefineNode self f inp t =
     do {
       (t1, interiorNodeSplitIndicators, interiorNodeSubModels) \<leftarrow> phaseA f inp t;
       (t2, edgeIndicatorSubModels, incomingEdgeIndices) \<leftarrow> phaseB f interiorNodeSplitIndicators t1;
       phaseC self f interiorNodeSubModels edgeIndicatorSubModels t2
     }"

section \<open>Doubles\<close>

text \<open>
  The values that the forest and the nodes of the graph add are C++ doubles. A finite double
  is the real number it stands for, and the addition of two doubles is a parameter \<open>add\<close> of
  every function that adds. It stands for \<open>double_add\<close>, the addition of the machine: the
  exact sum rounded to the nearest double, ties to the even significand (IEEE 754 binary64:
  53 bits of significand, the unit in the last place at least \<open>2\<close> to the \<open>-1074\<close>). The other
  instance is \<open>(+)\<close>, the exact sum that the machine approximates. Overflow to infinity,
  NaN and the sign of zero are outside this model.
\<close>

definition pow2 :: "int \<Rightarrow> real" where
  "pow2 e = (if 0 \<le> e then 2 ^ nat e else 1 / 2 ^ nat (- e))"

text \<open>The exponent of the power of two at or below the magnitude of a non-zero number.\<close>

definition binade :: "real \<Rightarrow> int" where
  "binade x = (if 1 \<le> \<bar>x\<bar> then bitlen \<lfloor>\<bar>x\<bar>\<rfloor> - 1 else - bitlen (\<lceil>1 / \<bar>x\<bar>\<rceil> - 1))"

definition roundHalfEven :: "real \<Rightarrow> int" where
  "roundHalfEven q =
     (let n = \<lfloor>q\<rfloor>; r = q - of_int n
      in if r < 1 / 2 then n else if 1 / 2 < r then n + 1 else if even n then n else n + 1)"

definition round_double :: "real \<Rightarrow> real" where
  "round_double x =
     (if x = 0 then 0
      else let e = max (binade x - 52) (- 1074)
           in of_int (roundHalfEven (x / pow2 e)) * pow2 e)"

definition double_add :: "real \<Rightarrow> real \<Rightarrow> real" where
  "double_add x y = round_double (x + y)"

section \<open>ForestPredictor's predictions and ForestNode::Compute\<close>

text \<open>
  Modelled from the spec: the member functions \<^verbatim>\<open>Predict\<close> and \<^verbatim>\<open>GetEdgeIndicatorVector\<close> of
  ForestPredictor are not among the sources. A prediction walks from an interior node to a
  leaf: the split rule of the node picks edge 0 (false) or edge 1 (true), the edge's
  predictor contributes a value, and the walk goes on at the edge's target while that is
  an interior node. The walk of a forest whose edges cycle never ends; \<open>pathToLeaf\<close> takes
  fuel and has no result (\<open>None\<close>) when it runs out, and none on an index outside the forest.
  The spec does not say in which order a prediction adds: here it adds as a loop over the
  walk does, every value onto one accumulator in the order in which the walk meets it.
\<close>

fun pathToLeaf ::
  "('sr \<Rightarrow> real list \<Rightarrow> bool) \<Rightarrow> ('sr, 'ep) InteriorNode list \<Rightarrow> real list \<Rightarrow> nat \<Rightarrow> nat \<Rightarrow>
   (nat \<times> nat) list option" where
  "pathToLeaf sp nodes x 0 i = None"
| "pathToLeaf sp nodes x (Suc fuel) i =
     do {
       node \<leftarrow> vec_read nodes i;
       let edgePosition = (if sp (GetSplitRule node) x then 1 else 0);
       e \<leftarrow> vec_read (GetOutgoingEdges node) edgePosition;
       if IsTargetInterior e then
         map_option ((#) (i, edgePosition)) (pathToLeaf sp nodes x fuel (GetTargetNodeIndex e))
       else Some [(i, edgePosition)]
     }"

text \<open>The path a prediction takes from an interior node: (node, edge position) pairs.\<close>

definition VisitEdgePathToLeaf ::
  "('sr \<Rightarrow> real list \<Rightarrow> bool) \<Rightarrow> ('sr, 'ep) ForestPredictor \<Rightarrow> real list \<Rightarrow> nat \<Rightarrow> (nat \<times> nat) list option" where
  "VisitEdgePathToLeaf sp f x i =
     pathToLeaf sp (GetInteriorNodes f) x (length (GetInteriorNodes f)) i"

definition edgeAt :: "('sr, 'ep) ForestPredictor \<Rightarrow> nat \<Rightarrow> nat \<Rightarrow> 'ep Edge" where
  "edgeAt f i p = GetOutgoingEdges (GetInteriorNodes f ! i) ! p"

text \<open>
  \<^verbatim>\<open>Predict(input, rootIndex)\<close>: the sum of the edge predictors along the path, added to an
  accumulator that starts at 0, in the order of the walk.
\<close>

definition PredictTree_with ::
  "(real \<Rightarrow> real \<Rightarrow> real) \<Rightarrow> ('sr \<Rightarrow> real list \<Rightarrow> bool) \<Rightarrow> ('ep \<Rightarrow> real list \<Rightarrow> real) \<Rightarrow>
   ('sr, 'ep) ForestPredictor \<Rightarrow> real list \<Rightarrow> nat \<Rightarrow> real option" where
  "PredictTree_with add sp epf f x i =
     map_option (\<lambda>path. foldl (\<lambda>acc (j, p). add acc (epf (GetPredictor (edgeAt f j p)) x)) 0 path)
       (VisitEdgePathToLeaf sp f x i)"

abbreviation PredictTree ::
  "('sr \<Rightarrow> real list \<Rightarrow> bool) \<Rightarrow> ('ep \<Rightarrow> real list \<Rightarrow> real) \<Rightarrow> ('sr, 'ep) ForestPredictor \<Rightarrow>
   real list \<Rightarrow> nat \<Rightarrow> real option" where
  "PredictTree \<equiv> PredictTree_with (+)"

text \<open>
  \<^verbatim>\<open>Predict(input)\<close>: the bias plus the predictions of all trees, added to an accumulator
  that starts at the bias, in the order of the root indices.
\<close>

definition Predict_with ::
  "(real \<Rightarrow> real \<Rightarrow> real) \<Rightarrow> ('sr \<Rightarrow> real list \<Rightarrow> bool) \<Rightarrow> ('ep \<Rightarrow> real list \<Rightarrow> real) \<Rightarrow>
   ('sr, 'ep) ForestPredictor \<Rightarrow> real list \<Rightarrow> real option" where
  "Predict_with add sp epf f x =
     map_option (\<lambda>trees. foldl add (GetBias f) trees)
       (those (map (PredictTree_with add sp epf f x) (GetRootIndices f)))"

abbreviation Predict ::
  "('sr \<Rightarrow> real list \<Rightarrow> bool) \<Rightarrow> ('ep \<Rightarrow> real list \<Rightarrow> real) \<Rightarrow> ('sr, 'ep) ForestPredictor \<Rightarrow>
   real list \<Rightarrow> real option" where
  "Predict \<equiv> Predict_with (+)"

text \<open>
  \<^verbatim>\<open>GetEdgeIndicatorVector(input)\<close>: one boolean per edge, true on the edges of the paths
  taken from the roots.
\<close>

definition markEdge :: "('sr, 'ep) ForestPredictor \<Rightarrow> nat \<times> nat \<Rightarrow> bool list \<Rightarrow> bool list option" where
  "markEdge f jp v = vec_write v (GetFirstEdgeIndex (GetInteriorNodes f ! fst jp) + snd jp) True"

definition GetEdgeIndicatorVector ::
  "('sr \<Rightarrow> real list \<Rightarrow> bool) \<Rightarrow> ('sr, 'ep) ForestPredictor \<Rightarrow> real list \<Rightarrow> bool list option" where
  "GetEdgeIndicatorVector sp f x =
     do {
       paths \<leftarrow> those (map (VisitEdgePathToLeaf sp f x) (GetRootIndices f));
       foldM (markEdge f) (concat paths) (replicate (NumEdges f) False)
     }"

text \<open>
  ForestNode::Compute (source lines 150 to 167): the values of the three output ports
  \<^verbatim>\<open>output\<close>, \<^verbatim>\<open>treeOutputs\<close> and \<^verbatim>\<open>edgeIndicatorVector\<close>, in this order. \<open>Compute_with add\<close>
  adds doubles with \<open>add\<close>; \<open>Compute\<close> is the instance whose sums are exact.
\<close>

definition Compute_with ::
  "(real \<Rightarrow> real \<Rightarrow> real) \<Rightarrow> ('sr \<Rightarrow> real list \<Rightarrow> bool) \<Rightarrow> ('ep \<Rightarrow> real list \<Rightarrow> real) \<Rightarrow>
   ('sr, 'ep) ForestPredictor \<Rightarrow> real list \<Rightarrow> val list list option" where
  "Compute_with add sp epf f x =
     do {
       out \<leftarrow> Predict_with add sp epf f x;
       treeOutputs \<leftarrow>
         those (map (\<lambda>i. PredictTree_with add sp epf f x (GetRootIndex f i)) [0..<NumTrees f]);
       edgeIndicator \<leftarrow> GetEdgeIndicatorVector sp f x;
       Some [[D out], map D treeOutputs, map B edgeIndicator]
     }"

abbreviation Compute ::
  "('sr \<Rightarrow> real list \<Rightarrow> bool) \<Rightarrow> ('ep \<Rightarrow> real list \<Rightarrow> real) \<Rightarrow> ('sr, 'ep) ForestPredictor \<Rightarrow>
   real list \<Rightarrow> val list list option" where
  "Compute \<equiv> Compute_with (+)"

section \<open>Evaluating a model\<close>

text \<open>
  The environment holds, for every node computed so far, the values of its output ports.
  Reading a PortElements fails on a reference to a node that has not been computed, to a
  port or to an element the node does not have.
\<close>

type_synonym env = "val list list list"

definition eval_elem :: "env \<Rightarrow> PortElement \<Rightarrow> val option" where
  "eval_elem env r =
     (case r of (n, p, i) \<Rightarrow>
        do { ports \<leftarrow> vec_read env n; vs \<leftarrow> vec_read ports p; vec_read vs i })"

definition eval_pe :: "env \<Rightarrow> PortElements \<Rightarrow> val list option" where
  "eval_pe env pe = those (map (eval_elem env) pe)"

definition as_double :: "val \<Rightarrow> real option" where
  "as_double v = (case v of D r \<Rightarrow> Some r | B b \<Rightarrow> None)"

definition as_bool :: "val \<Rightarrow> bool option" where
  "as_bool v = (case v of B b \<Rightarrow> Some b | D r \<Rightarrow> None)"

definition read_doubles :: "env \<Rightarrow> PortElements \<Rightarrow> real list option" where
  "read_doubles env pe = do { vs \<leftarrow> eval_pe env pe; those (map as_double vs) }"

definition read_bools :: "env \<Rightarrow> PortElements \<Rightarrow> bool list option" where
  "read_bools env pe = do { vs \<leftarrow> eval_pe env pe; those (map as_bool vs) }"

text \<open>
  Modelled from the spec: the \<^verbatim>\<open>Compute\<close> functions of the primitive nodes are not among the
  sources. A constant node holds its values; the binary operation adds element-wise; the
  unary operation negates element-wise; the element selector outputs the element its
  selector picks (false picks element 0, true element 1); the multiplexor routes its
  scalar input to the output its selector picks and leaves the other outputs false, so its
  two outputs are (input and not selector) and (input and selector); the sum node adds
  up its input, element after element onto an accumulator that starts at 0; the node of a
  split rule or of an edge predictor applies it to the input. The ForestNode itself
  computes by ForestNode::Compute. \<open>ComputeNode_with add\<close> adds doubles with \<open>add\<close>;
  \<open>ComputeNode\<close> is the instance whose sums are exact.
\<close>

fun ComputeNode_with ::
  "(real \<Rightarrow> real \<Rightarrow> real) \<Rightarrow> ('sr \<Rightarrow> real list \<Rightarrow> bool) \<Rightarrow> ('ep \<Rightarrow> real list \<Rightarrow> real) \<Rightarrow> env \<Rightarrow> ('sr, 'ep) Node \<Rightarrow>
   val list list option" where
  "ComputeNode_with add sp epf env (ConstantNode vs) = Some [map D vs]"
| "ComputeNode_with add sp epf env (BinaryOperationNode_add a b) =
     do {
       xs \<leftarrow> read_doubles env a;
       ys \<leftarrow> read_doubles env b;
       if length xs = length ys then Some [map D (map2 add xs ys)] else None
     }"
| "ComputeNode_with add sp epf env (UnaryOperationNode_logicalNot a) =
     do { bs \<leftarrow> read_bools env a; Some [map (\<lambda>b. B (\<not> b)) bs] }"
| "ComputeNode_with add sp epf env (ElementSelectorNode elements selector) =
     do {
       xs \<leftarrow> read_doubles env elements;
       s \<leftarrow> read_bools env selector;
       (case s of
          [b] \<Rightarrow> map_option (\<lambda>v. [[D v]]) (vec_read xs (if b then 1 else 0))
        | _ \<Rightarrow> None)
     }"
| "ComputeNode_with add sp epf env (MultiplexorNode a selector n) =
     do {
       xs \<leftarrow> read_bools env a;
       s \<leftarrow> read_bools env selector;
       (case (xs, s) of
          ([v], [b]) \<Rightarrow>
            map_option (\<lambda>vs. [map B vs]) (vec_write (replicate n False) (if b then 1 else 0) v)
        | _ \<Rightarrow> None)
     }"
| "ComputeNode_with add sp epf env (SumNode a) =
     do { xs \<leftarrow> read_doubles env a; Some [[D (foldl add 0 xs)]] }"
| "ComputeNode_with add sp epf env (SplitRuleNode r a) =
     do { xs \<leftarrow> read_doubles env a; Some [[B (sp r xs)]] }"
| "ComputeNode_with add sp epf env (EdgePredictorNode e a) =
     do { xs \<leftarrow> read_doubles env a; Some [[D (epf e xs)]] }"
| "ComputeNode_with add sp epf env (ForestNode f a) =
     do { xs \<leftarrow> read_doubles env a; Compute_with add sp epf f xs }"

abbreviation ComputeNode ::
  "('sr \<Rightarrow> real list \<Rightarrow> bool) \<Rightarrow> ('ep \<Rightarrow> real list \<Rightarrow> real) \<Rightarrow> env \<Rightarrow> ('sr, 'ep) Node \<Rightarrow>
   val list list option" where
  "ComputeNode \<equiv> ComputeNode_with (+)"

text \<open>
  The nodes of a model are computed in the order in which they were added, every node
  after the nodes it reads: a topological order of the graph.
\<close>

fun run_with ::
  "(real \<Rightarrow> real \<Rightarrow> real) \<Rightarrow> ('sr \<Rightarrow> real list \<Rightarrow> bool) \<Rightarrow> ('ep \<Rightarrow> real list \<Rightarrow> real) \<Rightarrow> env \<Rightarrow>
   ('sr, 'ep) Node list \<Rightarrow> env option" where
  "run_with add sp epf env [] = Some env"
| "run_with add sp epf env (n # ns) =
     do { v \<leftarrow> ComputeNode_with add sp epf env n; run_with add sp epf (env @ [v]) ns }"

abbreviation run ::
  "('sr \<Rightarrow> real list \<Rightarrow> bool) \<Rightarrow> ('ep \<Rightarrow> real list \<Rightarrow> real) \<Rightarrow> env \<Rightarrow> ('sr, 'ep) Node list \<Rightarrow> env option" where
  "run \<equiv> run_with (+)"

definition EvaluateModel_with ::
  "(real \<Rightarrow> real \<Rightarrow> real) \<Rightarrow> ('sr \<Rightarrow> real list \<Rightarrow> bool) \<Rightarrow> ('ep \<Rightarrow> real list \<Rightarrow> real) \<Rightarrow>
   ('sr, 'ep) Node list \<Rightarrow> env option" where
  "EvaluateModel_with add sp epf nodes = run_with add sp epf [] nodes"

abbreviation EvaluateModel ::
  "('sr \<Rightarrow> real list \<Rightarrow> bool) \<Rightarrow> ('ep \<Rightarrow> real list \<Rightarrow> real) \<Rightarrow> ('sr, 'ep) Node list \<Rightarrow> env option" where
  "EvaluateModel \<equiv> EvaluateModel_with (+)"

section \<open>The structural invariants of a forest\<close>

text \<open>
  Edge \<open>p\<close> of node \<open>i\<close> leads to the interior node \<open>c\<close>.
\<close>

definition leadsTo :: "('sr, 'ep) ForestPredictor \<Rightarrow> nat \<Rightarrow> nat \<Rightarrow> nat \<Rightarrow> bool" where
  "leadsTo f i p c \<longleftrightarrow> IsTargetInterior (edgeAt f i p) \<and> GetTargetNodeIndex (edgeAt f i p) = c"

definition hasParent :: "('sr, 'ep) ForestPredictor \<Rightarrow> nat \<Rightarrow> bool" where
  "hasParent f c \<longleftrightarrow> (\<exists>i<length (GetInteriorNodes f). \<exists>p<2. leadsTo f i p c)"

text \<open>
  Every interior node has exactly two outgoing edges, which are the edges \<open>2 i\<close> and
  \<open>2 i + 1\<close> of the forest; the forest has no other edges, and their number fits an
  \<^verbatim>\<open>int\<close>.
\<close>

definition wf_edges :: "('sr, 'ep) ForestPredictor \<Rightarrow> bool" where
  "wf_edges f \<longleftrightarrow>
     NumEdges f = 2 * length (GetInteriorNodes f) \<and> NumEdges f < 2 ^ 31 \<and>
     (\<forall>i<length (GetInteriorNodes f).
        length (GetOutgoingEdges (GetInteriorNodes f ! i)) = 2 \<and>
        GetFirstEdgeIndex (GetInteriorNodes f ! i) = 2 * i)"

text \<open>An interior target lies in the forest, after its parent.\<close>

definition wf_order :: "('sr, 'ep) ForestPredictor \<Rightarrow> bool" where
  "wf_order f \<longleftrightarrow>
     (\<forall>i<length (GetInteriorNodes f). \<forall>p<2. \<forall>c. leadsTo f i p c \<longrightarrow>
        i < c \<and> c < length (GetInteriorNodes f))"

text \<open>No interior node is the target of two edges.\<close>

definition wf_parents :: "('sr, 'ep) ForestPredictor \<Rightarrow> bool" where
  "wf_parents f \<longleftrightarrow>
     (\<forall>i<length (GetInteriorNodes f). \<forall>p<2. \<forall>j<length (GetInteriorNodes f). \<forall>q<2. \<forall>c.
        leadsTo f i p c \<and> leadsTo f j q c \<longrightarrow> i = j \<and> p = q)"

text \<open>The roots are the interior nodes that are no edge's target.\<close>

definition wf_roots :: "('sr, 'ep) ForestPredictor \<Rightarrow> bool" where
  "wf_roots f \<longleftrightarrow>
     (\<forall>r\<in>set (GetRootIndices f). r < length (GetInteriorNodes f) \<and> \<not> hasParent f r) \<and>
     (\<forall>r<length (GetInteriorNodes f). \<not> hasParent f r \<longrightarrow> r \<in> set (GetRootIndices f))"

definition wf_forest :: "('sr, 'ep) ForestPredictor \<Rightarrow> bool" where
  "wf_forest f \<longleftrightarrow> wf_edges f \<and> wf_order f \<and> wf_parents f \<and> wf_roots f"

section \<open>CompressedIntegerList\<close>

text \<open>
  The class of \<^verbatim>\<open>CompressedIntegerList.h\<close>: the members \<^verbatim>\<open>_mem\<close>, \<^verbatim>\<open>_last\<close> and \<^verbatim>\<open>_size\<close> of the
  list, and the members of its iterator, whose two pointers \<^verbatim>\<open>_iter\<close> and \<^verbatim>\<open>_end\<close> are
  positions in the buffer they point into.
\<close>

type_synonym uint8 = "8 word"
type_synonym uint64 = "64 word"

record CompressedIntegerList =
  list_mem :: "uint8 list"
  list_last :: uint64
  list_size :: uint64

record Iterator =
  iter_mem :: "uint8 list"
  iter_pos :: nat
  iter_end :: nat
  iter_value :: uint64
  iter_increment :: nat

datatype error = InvalidArgument | OutOfRange

text \<open>
  Modelled from the spec: the header declares the member functions, their definitions are
  not among the sources. The byte format of a delta is an implementation detail that only
  has to round-trip, so the model takes it as a parameter: \<open>encode\<close> writes a delta,
  \<open>decode\<close> reads the delta at the start of a buffer and tells how many bytes it took.
\<close>

record codec =
  encode :: "uint64 \<Rightarrow> uint8 list"
  decode :: "uint8 list \<Rightarrow> (uint64 \<times> nat) option"

definition codec_ok :: "codec \<Rightarrow> bool" where
  "codec_ok c \<longleftrightarrow>
     (\<forall>d rest. decode c (encode c d @ rest) = Some (d, length (encode c d))) \<and>
     (\<forall>d. encode c d \<noteq> [])"

text \<open>Modelled from the spec: the default constructor, an empty list.\<close>

definition EmptyList :: CompressedIntegerList where
  "EmptyList = \<lparr>list_mem = [], list_last = 0, list_size = 0\<rparr>"

text \<open>Modelled from the spec: the count of pushed values.\<close>

definition Size :: "CompressedIntegerList \<Rightarrow> uint64" where
  "Size l = list_size l"

text \<open>Modelled from the spec: Max, the last pushed value, and 0 for an empty list.\<close>

definition Max_list :: "CompressedIntegerList \<Rightarrow> uint64" where
  "Max_list l = (if list_size l = 0 then 0 else list_last l)"

text \<open>
  Modelled from the spec: PushBack requires a value that is not below the last pushed
  value, or an empty list, and otherwise signals an invalid argument and leaves the list
  as it was. It stores the delta from the previous value (from 0 for the first value),
  adds one to the size and keeps the value as the last one. The result is the condition
  signalled, if any, and the list after the call.
\<close>

definition PushBack :: "codec \<Rightarrow> uint64 \<Rightarrow> CompressedIntegerList \<Rightarrow> error option \<times> CompressedIntegerList" where
  "PushBack c v l =
     (if list_size l \<noteq> 0 \<and> v < list_last l then (Some InvalidArgument, l)
      else (None,
            \<lparr>list_mem = list_mem l @ encode c (v - (if list_size l = 0 then 0 else list_last l)),
             list_last = v, list_size = list_size l + 1\<rparr>))"

text \<open>Pushing a sequence of values in order; the first failing push ends it.\<close>

fun PushBackAll :: "codec \<Rightarrow> uint64 list \<Rightarrow> CompressedIntegerList \<Rightarrow> error option \<times> CompressedIntegerList" where
  "PushBackAll c [] l = (None, l)"
| "PushBackAll c (v # vs) l =
     (case PushBack c v l of
        (Some e, l') \<Rightarrow> (Some e, l')
      | (None, l') \<Rightarrow> PushBackAll c vs l')"

text \<open>
  Modelled from the spec: the iterator is valid until its cursor has passed the last
  entry; Get gives the decoded value at the cursor; Next moves the cursor by the pending
  increment, decodes the delta there and adds it to the running value. Get and Next on an
  invalid iterator signal an out-of-range condition, and so does, in this model, a buffer
  that does not decode.
\<close>

definition IsValid :: "Iterator \<Rightarrow> bool" where
  "IsValid it \<longleftrightarrow> iter_pos it < iter_end it"

definition Get :: "Iterator \<Rightarrow> error + uint64" where
  "Get it = (if IsValid it then Inr (iter_value it) else Inl OutOfRange)"

definition advance :: "codec \<Rightarrow> Iterator \<Rightarrow> error + Iterator" where
  "advance c it =
     (let pos = iter_pos it + iter_increment it
      in if pos < iter_end it then
           (case decode c (drop pos (iter_mem it)) of
              None \<Rightarrow> Inl OutOfRange
            | Some (delta, n) \<Rightarrow>
                Inr (it\<lparr>iter_pos := pos, iter_value := iter_value it + delta, iter_increment := n\<rparr>))
         else Inr (it\<lparr>iter_pos := pos, iter_increment := 0\<rparr>))"

definition Next :: "codec \<Rightarrow> Iterator \<Rightarrow> error + Iterator" where
  "Next c it = (if IsValid it then advance c it else Inl OutOfRange)"

text \<open>Modelled from the spec: a fresh cursor at the first entry, invalid at once on an empty list.\<close>

definition GetIterator :: "codec \<Rightarrow> CompressedIntegerList \<Rightarrow> error + Iterator" where
  "GetIterator c l =
     advance c \<lparr>iter_mem = list_mem l, iter_pos = 0, iter_end = length (list_mem l),
                iter_value = 0, iter_increment = 0\<rparr>"

text \<open>
  The loop of a reader: while the iterator is valid, take the value and go on. The loop
  takes fuel; it has no result when the fuel runs out.
\<close>

fun iterate :: "codec \<Rightarrow> nat \<Rightarrow> Iterator \<Rightarrow> (error + uint64 list) option" where
  "iterate c fuel it =
     (if IsValid it then
        (case fuel of
           0 \<Rightarrow> None
         | Suc n \<Rightarrow>
             (case Get it of
                Inl e \<Rightarrow> Some (Inl e)
              | Inr v \<Rightarrow>
                  (case Next c it of
                     Inl e \<Rightarrow> Some (Inl e)
                   | Inr it' \<Rightarrow> map_option (map_sum id ((#) v)) (iterate c n it'))))
      else Some (Inr []))"

text \<open>Reading a whole list.\<close>

definition readAll :: "codec \<Rightarrow> nat \<Rightarrow> CompressedIntegerList \<Rightarrow> (error + uint64 list) option" where
  "readAll c fuel l =
     (case GetIterator c l of Inl e \<Rightarrow> Some (Inl e) | Inr it \<Rightarrow> iterate c fuel it)"

text \<open>
  An example of a byte format: a delta is written as a run of bytes 255, each standing for
  255, and a last byte below 255.
\<close>

definition escapeEncode :: "uint64 \<Rightarrow> uint8 list" where
  "escapeEncode d = replicate (unat d div 255) 255 @ [word_of_nat (unat d mod 255)]"

fun escapeDecodeNat :: "uint8 list \<Rightarrow> (nat \<times> nat) option" where
  "escapeDecodeNat [] = None"
| "escapeDecodeNat (b # bs) =
     (if b = 255 then map_option (\<lambda>(v, n). (v + 255, Suc n)) (escapeDecodeNat bs)
      else Some (unat b, 1))"

definition escapeDecode :: "uint8 list \<Rightarrow> (uint64 \<times> nat) option" where
  "escapeDecode bs = map_option (\<lambda>(v, n). (word_of_nat v, n)) (escapeDecodeNat bs)"

definition escapeCodec :: codec where
  "escapeCodec = \<lparr>encode = escapeEncode, decode = escapeDecode\<rparr>"


section \<open>Basic facts\<close>

lemma vec_read_Some [simp]: "i < length xs \<Longrightarrow> vec_read xs i = Some (xs ! i)"
  by (simp add: vec_read_def)

lemma vec_read_None [simp]: "\<not> i < length xs \<Longrightarrow> vec_read xs i = None"
  by (simp add: vec_read_def)

lemma vec_write_Some [simp]: "i < length xs \<Longrightarrow> vec_write xs i v = Some (xs[i := v])"
  by (simp add: vec_write_def)

lemma vec_write_None [simp]: "\<not> i < length xs \<Longrightarrow> vec_write xs i v = None"
  by (simp add: vec_write_def)

lemma foldM_append: "foldM body (xs @ ys) s = Option.bind (foldM body xs s) (foldM body ys)"
  by (induction xs arbitrary: s) (auto split: Option.bind_split)

lemma those_map_Some: "(\<And>a. a \<in> set xs \<Longrightarrow> h a = Some (g a)) \<Longrightarrow> those (map h xs) = Some (map g xs)"
  by (induction xs) auto

lemma static_cast_int_small: "n < 2 ^ 31 \<Longrightarrow> static_cast_int n = int n"
  unfolding static_cast_int_def
  by (simp add: signed_of_nat signed_take_bit_int_eq_self)

section \<open>The rounding of doubles\<close>

text \<open>
  What \<open>round_double\<close> returns for a number other than 0: a multiple of the unit in the last
  place of its binade whose significand has at most 53 bits, at most half a unit away.
\<close>

lemma pow2_pos [simp]: "0 < pow2 e"
  by (simp add: pow2_def)

lemma bitlen_ge_one: "0 < n \<Longrightarrow> 1 \<le> bitlen n"
  by (simp add: bitlen_alt_def)

lemma binade_large:
  assumes "1 \<le> \<bar>x\<bar>"
  shows "pow2 (binade x) \<le> \<bar>x\<bar> \<and> \<bar>x\<bar> < pow2 (binade x + 1)"
proof -
  let ?n = "\<lfloor>\<bar>x\<bar>\<rfloor>"
  have n: "0 < ?n" using assms by linarith
  from bitlen_bounds[OF n] have lo: "2 ^ nat (bitlen ?n - 1) \<le> ?n" and hi: "?n < 2 ^ nat (bitlen ?n)"
    by simp_all
  have b: "1 \<le> bitlen ?n" using n by (rule bitlen_ge_one)
  have "real_of_int (2 ^ nat (bitlen ?n - 1)) \<le> real_of_int ?n" using lo by linarith
  then have "(2 :: real) ^ nat (bitlen ?n - 1) \<le> \<bar>x\<bar>" by (simp add: le_floor_iff)
  moreover have "?n + 1 \<le> 2 ^ nat (bitlen ?n)" using hi by linarith
  then have "real_of_int (?n + 1) \<le> real_of_int (2 ^ nat (bitlen ?n))" by linarith
  then have "\<bar>x\<bar> < (2 :: real) ^ nat (bitlen ?n)" by (simp add: ) linarith
  ultimately show ?thesis using assms b by (simp add: binade_def pow2_def)
qed

lemma binade_small:
  assumes "x \<noteq> 0" "\<bar>x\<bar> < 1"
  shows "pow2 (binade x) \<le> \<bar>x\<bar> \<and> \<bar>x\<bar> < pow2 (binade x + 1)"
proof -
  let ?y = "1 / \<bar>x\<bar>"
  let ?m = "\<lceil>?y\<rceil> - 1"
  have ax: "0 < \<bar>x\<bar>" using assms(1) by simp
  have y: "1 < ?y" using assms ax by simp
  have m: "0 < ?m" using y by linarith
  have my: "real_of_int ?m < ?y" "?y \<le> real_of_int ?m + 1" by linarith+
  from bitlen_bounds[OF m] have lo: "2 ^ nat (bitlen ?m - 1) \<le> ?m" and hi: "?m < 2 ^ nat (bitlen ?m)"
    by simp_all
  have b: "1 \<le> bitlen ?m" using m by (rule bitlen_ge_one)
  have "?m + 1 \<le> 2 ^ nat (bitlen ?m)" using hi by linarith
  then have "real_of_int (?m + 1) \<le> real_of_int (2 ^ nat (bitlen ?m))" by linarith
  then have "real_of_int ?m + 1 \<le> 2 ^ nat (bitlen ?m)" by simp
  with my(2) have "?y \<le> 2 ^ nat (bitlen ?m)" by (rule order_trans)
  then have "1 \<le> 2 ^ nat (bitlen ?m) * \<bar>x\<bar>" using ax by (simp add: field_simps)
  then have lower: "1 / 2 ^ nat (bitlen ?m) \<le> \<bar>x\<bar>" by (simp add: field_simps)
  have "real_of_int (2 ^ nat (bitlen ?m - 1)) \<le> real_of_int ?m" using lo by linarith
  then have "2 ^ nat (bitlen ?m - 1) < ?y" using my(1) by simp
  then have "2 ^ nat (bitlen ?m - 1) * \<bar>x\<bar> < 1" using ax by (simp add: field_simps)
  then have upper: "\<bar>x\<bar> < 1 / 2 ^ nat (bitlen ?m - 1)" by (simp add: field_simps)
  have bn: "binade x = - bitlen ?m" using assms(2) by (simp add: binade_def)
  have p1: "pow2 (binade x) = 1 / 2 ^ nat (bitlen ?m)" using b by (simp add: bn pow2_def)
  have p2: "pow2 (binade x + 1) = 1 / 2 ^ nat (bitlen ?m - 1)"
  proof (cases "bitlen ?m = 1")
    case True
    then show ?thesis by (simp add: bn pow2_def)
  next
    case False
    with b have "1 < bitlen ?m" by simp
    then have "nat (- (- bitlen ?m + 1)) = nat (bitlen ?m - 1)" "\<not> 0 \<le> - bitlen ?m + 1" by simp_all
    then show ?thesis by (simp add: bn pow2_def)
  qed
  show ?thesis unfolding p1 p2 using lower upper by simp
qed

lemma binade_bounds:
  "x \<noteq> 0 \<Longrightarrow> pow2 (binade x) \<le> \<bar>x\<bar> \<and> \<bar>x\<bar> < pow2 (binade x + 1)"
  using binade_large[of x] binade_small[of x] by (cases "1 \<le> \<bar>x\<bar>") simp_all

lemma roundHalfEven_near: "\<bar>of_int (roundHalfEven q) - q\<bar> \<le> 1 / 2"
  unfolding roundHalfEven_def Let_def by (auto; linarith)

lemma round_double_near:
  assumes "x \<noteq> 0"
  shows "\<bar>round_double x - x\<bar> \<le> pow2 (max (binade x - 52) (- 1074)) / 2"
proof -
  let ?e = "max (binade x - 52) (- 1074)"
  have "\<bar>of_int (roundHalfEven (x / pow2 ?e)) - x / pow2 ?e\<bar> * pow2 ?e \<le> 1 / 2 * pow2 ?e"
    by (intro mult_right_mono roundHalfEven_near) (simp add: less_imp_le)
  moreover have "\<bar>of_int (roundHalfEven (x / pow2 ?e)) - x / pow2 ?e\<bar> * pow2 ?e =
      \<bar>of_int (roundHalfEven (x / pow2 ?e)) * pow2 ?e - x\<bar>"
  proof -
    have "\<bar>pow2 ?e\<bar> = pow2 ?e" using pow2_pos[of ?e] by linarith
    then have "\<bar>of_int (roundHalfEven (x / pow2 ?e)) - x / pow2 ?e\<bar> * pow2 ?e =
          \<bar>(of_int (roundHalfEven (x / pow2 ?e)) - x / pow2 ?e) * pow2 ?e\<bar>"
      by (simp only: abs_mult)
    also have "(of_int (roundHalfEven (x / pow2 ?e)) - x / pow2 ?e) * pow2 ?e =
          of_int (roundHalfEven (x / pow2 ?e)) * pow2 ?e - x"
    proof -
      have "pow2 ?e \<noteq> 0" using pow2_pos[of ?e] by linarith
      then show ?thesis by (simp add: field_simps)
    qed
    finally show ?thesis .
  qed
  ultimately show ?thesis using assms by (simp add: round_double_def Let_def)
qed


lemma pow2_powr: "pow2 e = 2 powr (real_of_int e)"
proof (cases "0 \<le> e")
  case True
  then have "real_of_int e = real (nat e)" by simp
  then show ?thesis using True by (simp add: pow2_def powr_realpow del: of_nat_nat)
next
  case False
  then have "real_of_int e = - real (nat (- e))" by simp
  then show ?thesis using False by (simp add: pow2_def powr_minus powr_realpow inverse_eq_divide del: of_nat_nat)
qed

lemma pow2_add: "pow2 (a + b) = pow2 a * pow2 b"
  by (simp add: pow2_powr powr_add)

lemma pow2_mono: "a \<le> b \<Longrightarrow> pow2 a \<le> pow2 b"
  by (simp add: pow2_powr)

lemma round_double_grid:
  assumes "x \<noteq> 0"
  shows "\<exists>m. round_double x = of_int m * pow2 (max (binade x - 52) (- 1074)) \<and> \<bar>m\<bar> \<le> 2 ^ 53"
proof -
  let ?e = "max (binade x - 52) (- 1074)"
  let ?q = "x / pow2 ?e"
  let ?m = "roundHalfEven ?q"
  have "binade x + 1 \<le> ?e + 53" by simp
  from pow2_mono[OF this] have "pow2 (binade x + 1) \<le> pow2 ?e * 2 ^ 53"
    by (simp add: pow2_add) (simp add: pow2_def)
  with binade_bounds[OF assms] have "\<bar>x\<bar> < pow2 ?e * 2 ^ 53" by linarith
  then have lt: "\<bar>x\<bar> / pow2 ?e < 2 ^ 53" using pow2_pos[of ?e] by (simp add: field_simps)
  have ap: "\<bar>pow2 ?e\<bar> = pow2 ?e" using pow2_pos[of ?e] by linarith
  have aq: "\<bar>?q\<bar> = \<bar>x\<bar> / pow2 ?e" unfolding abs_divide ap ..
  have q: "\<bar>?q\<bar> < 2 ^ 53" unfolding aq by (rule lt)
  have "\<bar>real_of_int ?m\<bar> \<le> \<bar>?q\<bar> + 1 / 2" using roundHalfEven_near[of ?q] by linarith
  with q have "\<bar>real_of_int ?m\<bar> < 2 ^ 53 + 1" by linarith
  then have "real_of_int \<bar>?m\<bar> < real_of_int (2 ^ 53 + 1)" by simp
  then have "\<bar>?m\<bar> < 2 ^ 53 + 1" by (simp only: of_int_less_iff)
  then have "\<bar>?m\<bar> \<le> 2 ^ 53" by simp
  then show ?thesis using assms by (auto simp: round_double_def Let_def)
qed

text \<open>
  Sums that round: \<open>2\<close> to the 53 is the first double whose successor is 2 away, and a sum
  half way between two doubles goes to the one with the even significand.
\<close>

lemma double_add_examples:
  "double_add 9007199254740992 1 = 9007199254740992"
  "double_add 9007199254740992 3 = 9007199254740996"
  "double_add 1 10000000000000000 = 10000000000000000"
  "double_add 10000000000000000 (- 10000000000000000) = 0"
  "round_double (1 / 10) = 3602879701896397 / 36028797018963968"
  by code_simp+


section \<open>The path of a prediction\<close>

text \<open>
  The edge position a split rule picks, the step from a node to the interior target of the
  picked edge, and the nodes that the walks from the roots visit.
\<close>

definition edgePositionOf ::
  "('sr \<Rightarrow> real list \<Rightarrow> bool) \<Rightarrow> ('sr, 'ep) ForestPredictor \<Rightarrow> real list \<Rightarrow> nat \<Rightarrow> nat" where
  "edgePositionOf sp f x i = (if sp (GetSplitRule (GetInteriorNodes f ! i)) x then 1 else 0)"

definition stepTo ::
  "('sr \<Rightarrow> real list \<Rightarrow> bool) \<Rightarrow> ('sr, 'ep) ForestPredictor \<Rightarrow> real list \<Rightarrow> nat \<Rightarrow> nat \<Rightarrow> bool" where
  "stepTo sp f x a b \<longleftrightarrow> a < length (GetInteriorNodes f) \<and> leadsTo f a (edgePositionOf sp f x a) b"

definition active ::
  "('sr \<Rightarrow> real list \<Rightarrow> bool) \<Rightarrow> ('sr, 'ep) ForestPredictor \<Rightarrow> real list \<Rightarrow> nat \<Rightarrow> bool" where
  "active sp f x j \<longleftrightarrow> (\<exists>r\<in>set (GetRootIndices f). (stepTo sp f x)\<^sup>*\<^sup>* r j)"

lemma edgePositionOf_less [simp]: "edgePositionOf sp f x i < 2"
  by (simp add: edgePositionOf_def)

lemma wf_edges_len: "wf_forest f \<Longrightarrow> i < length (GetInteriorNodes f) \<Longrightarrow>
    length (GetOutgoingEdges (GetInteriorNodes f ! i)) = 2"
  by (simp add: wf_forest_def wf_edges_def)

lemma wf_firstEdge: "wf_forest f \<Longrightarrow> i < length (GetInteriorNodes f) \<Longrightarrow>
    GetFirstEdgeIndex (GetInteriorNodes f ! i) = 2 * i"
  by (simp add: wf_forest_def wf_edges_def)

lemma wf_numEdges: "wf_forest f \<Longrightarrow> NumEdges f = 2 * length (GetInteriorNodes f)"
  by (simp add: wf_forest_def wf_edges_def)

lemma wf_small: "wf_forest f \<Longrightarrow> NumEdges f < 2 ^ 31"
  by (simp add: wf_forest_def wf_edges_def)

lemma wf_target: "wf_forest f \<Longrightarrow> i < length (GetInteriorNodes f) \<Longrightarrow> p < 2 \<Longrightarrow> leadsTo f i p c \<Longrightarrow>
    i < c \<and> c < length (GetInteriorNodes f)"
  unfolding wf_forest_def wf_order_def by blast

lemma wf_unique: "wf_forest f \<Longrightarrow> i < length (GetInteriorNodes f) \<Longrightarrow> p < 2 \<Longrightarrow> leadsTo f i p c \<Longrightarrow>
    j < length (GetInteriorNodes f) \<Longrightarrow> q < 2 \<Longrightarrow> leadsTo f j q c \<Longrightarrow> i = j \<and> p = q"
proof -
  assume a: "wf_forest f" "i < length (GetInteriorNodes f)" "p < 2" "leadsTo f i p c"
    "j < length (GetInteriorNodes f)" "q < 2" "leadsTo f j q c"
  then have "wf_parents f" by (simp add: wf_forest_def)
  then have "\<forall>i<length (GetInteriorNodes f). \<forall>p<2. \<forall>j<length (GetInteriorNodes f). \<forall>q<2. \<forall>c.
        leadsTo f i p c \<and> leadsTo f j q c \<longrightarrow> i = j \<and> p = q" by (simp only: wf_parents_def)
  then have "leadsTo f i p c \<and> leadsTo f j q c \<longrightarrow> i = j \<and> p = q" using a(2,3,5,6) by blast
  with a show ?thesis by blast
qed

lemma wf_root: "wf_forest f \<Longrightarrow> r \<in> set (GetRootIndices f) \<Longrightarrow>
    r < length (GetInteriorNodes f) \<and> \<not> hasParent f r"
  unfolding wf_forest_def wf_roots_def by blast

lemma wf_orphan: "wf_forest f \<Longrightarrow> r < length (GetInteriorNodes f) \<Longrightarrow> \<not> hasParent f r \<Longrightarrow>
    r \<in> set (GetRootIndices f)"
  unfolding wf_forest_def wf_roots_def by blast

lemma pathToLeaf_Suc:
  "pathToLeaf sp nodes x n i = Some ps \<Longrightarrow> pathToLeaf sp nodes x (Suc n) i = Some ps"
proof (induction n arbitrary: i ps)
  case 0
  then show ?case by simp
next
  case (Suc n)
  let ?node = "nodes ! i"
  let ?p = "if sp (GetSplitRule ?node) x then 1 else 0 :: nat"
  let ?e = "GetOutgoingEdges ?node ! ?p"
  from Suc.prems have i: "i < length nodes"
    by (cases "i < length nodes") simp_all
  from Suc.prems i have p: "?p < length (GetOutgoingEdges ?node)"
    by (cases "?p < length (GetOutgoingEdges ?node)") (simp_all add: Let_def)
  show ?case
  proof (cases "IsTargetInterior ?e")
    case True
    with Suc.prems i p obtain ps' where
      ps': "pathToLeaf sp nodes x n (GetTargetNodeIndex ?e) = Some ps'" "ps = (i, ?p) # ps'"
      by (auto simp: Let_def split: if_splits)
    from Suc.IH[OF ps'(1)] have "pathToLeaf sp nodes x (Suc n) (GetTargetNodeIndex ?e) = Some ps'" .
    then show ?thesis using True i p ps'(2)
      by (subst pathToLeaf.simps(2)) (simp add: Let_def del: pathToLeaf.simps(2))
  next
    case False
    with Suc.prems i p show ?thesis by (simp add: Let_def)
  qed
qed

lemma pathToLeaf_mono:
  "pathToLeaf sp nodes x n i = Some ps \<Longrightarrow> n \<le> m \<Longrightarrow> pathToLeaf sp nodes x m i = Some ps"
proof (induction m)
  case 0
  then show ?case by simp
next
  case (Suc m)
  show ?case
  proof (cases "n = Suc m")
    case True
    with Suc.prems show ?thesis by blast
  next
    case False
    with Suc.prems have "n \<le> m" by simp
    from pathToLeaf_Suc[OF Suc.IH[OF Suc.prems(1) this]] show ?thesis .
  qed
qed

lemma pathToLeaf_total:
  assumes "wf_forest f"
  shows "i < length (GetInteriorNodes f) \<Longrightarrow> length (GetInteriorNodes f) - i \<le> n \<Longrightarrow>
         \<exists>ps. pathToLeaf sp (GetInteriorNodes f) x n i = Some ps"
proof (induction n arbitrary: i)
  case 0
  then show ?case by simp
next
  case (Suc n)
  let ?p = "edgePositionOf sp f x i"
  let ?e = "edgeAt f i ?p"
  have len: "length (GetOutgoingEdges (GetInteriorNodes f ! i)) = 2"
    using assms Suc.prems(1) by (rule wf_edges_len)
  show ?case
  proof (cases "IsTargetInterior ?e")
    case True
    then have lt: "leadsTo f i ?p (GetTargetNodeIndex ?e)" by (simp add: leadsTo_def)
    from wf_target[OF assms Suc.prems(1) _ lt]
    have c: "i < GetTargetNodeIndex ?e" "GetTargetNodeIndex ?e < length (GetInteriorNodes f)" by simp_all
    then have "length (GetInteriorNodes f) - GetTargetNodeIndex ?e \<le> n" using Suc.prems by arith
    from Suc.IH[OF c(2) this] obtain ps where
      "pathToLeaf sp (GetInteriorNodes f) x n (GetTargetNodeIndex ?e) = Some ps" by blast
    then show ?thesis using True Suc.prems(1) len
      by (simp add: edgePositionOf_def edgeAt_def)
  next
    case False
    then show ?thesis using Suc.prems(1) len
      by (simp add: edgePositionOf_def edgeAt_def)
  qed
qed

lemma Visit_unfold:
  assumes "wf_forest f" "i < length (GetInteriorNodes f)"
  shows "VisitEdgePathToLeaf sp f x i =
         Some ((i, edgePositionOf sp f x i) #
               (if IsTargetInterior (edgeAt f i (edgePositionOf sp f x i))
                then the (VisitEdgePathToLeaf sp f x (GetTargetNodeIndex (edgeAt f i (edgePositionOf sp f x i))))
                else []))"
proof -
  let ?K = "length (GetInteriorNodes f)"
  let ?p = "edgePositionOf sp f x i"
  let ?e = "edgeAt f i ?p"
  have len: "length (GetOutgoingEdges (GetInteriorNodes f ! i)) = 2"
    using assms by (rule wf_edges_len)
  obtain k where k: "?K = Suc k" using assms(2) by (cases ?K) auto
  show ?thesis
  proof (cases "IsTargetInterior ?e")
    case True
    then have lt: "leadsTo f i ?p (GetTargetNodeIndex ?e)" by (simp add: leadsTo_def)
    from wf_target[OF assms _ lt]
    have c: "i < GetTargetNodeIndex ?e" "GetTargetNodeIndex ?e < ?K" by simp_all
    then have "?K - GetTargetNodeIndex ?e \<le> k" using k by arith
    from pathToLeaf_total[OF assms(1) c(2) this] obtain ps where
      ps: "pathToLeaf sp (GetInteriorNodes f) x k (GetTargetNodeIndex ?e) = Some ps" by blast
    from pathToLeaf_Suc[OF this] have "VisitEdgePathToLeaf sp f x (GetTargetNodeIndex ?e) = Some ps"
      by (simp add: VisitEdgePathToLeaf_def k)
    then show ?thesis using True assms(2) len ps
      by (simp add: VisitEdgePathToLeaf_def k edgePositionOf_def edgeAt_def)
  next
    case False
    then show ?thesis using assms(2) len
      by (simp add: VisitEdgePathToLeaf_def k edgePositionOf_def edgeAt_def)
  qed
qed

lemma Visit_total:
  assumes "wf_forest f" "i < length (GetInteriorNodes f)"
  shows "\<exists>ps. VisitEdgePathToLeaf sp f x i = Some ps"
  using Visit_unfold[OF assms] by blast


lemma foldl_edge_sum:
  "foldl (\<lambda>acc (j, p). acc + (g j p :: real)) a ps = a + sum_list (map (\<lambda>(j, p). g j p) ps)"
  by (induction ps arbitrary: a) (auto simp: algebra_simps)

lemma PredictTree_unfold:
  assumes "wf_forest f" "i < length (GetInteriorNodes f)"
  shows "PredictTree sp epf f x i =
         Some (epf (GetPredictor (edgeAt f i (edgePositionOf sp f x i))) x +
               (if IsTargetInterior (edgeAt f i (edgePositionOf sp f x i))
                then the (PredictTree sp epf f x (GetTargetNodeIndex (edgeAt f i (edgePositionOf sp f x i))))
                else 0))"
proof -
  let ?e = "edgeAt f i (edgePositionOf sp f x i)"
  show ?thesis
  proof (cases "IsTargetInterior ?e")
    case True
    then have lt: "leadsTo f i (edgePositionOf sp f x i) (GetTargetNodeIndex ?e)"
      by (simp add: leadsTo_def)
    from wf_target[OF assms _ lt] have "GetTargetNodeIndex ?e < length (GetInteriorNodes f)" by simp
    from Visit_total[OF assms(1) this] obtain ps where
      "VisitEdgePathToLeaf sp f x (GetTargetNodeIndex ?e) = Some ps" by blast
    then show ?thesis using True
      by (simp add: PredictTree_with_def Visit_unfold[OF assms] foldl_edge_sum)
  next
    case False
    then show ?thesis
      by (simp add: PredictTree_with_def Visit_unfold[OF assms] foldl_edge_sum)
  qed
qed

lemma PredictTree_total:
  assumes "wf_forest f" "i < length (GetInteriorNodes f)"
  shows "PredictTree_with add sp epf f x i = Some (the (PredictTree_with add sp epf f x i))"
  using Visit_total[OF assms, of sp x] by (auto simp: PredictTree_with_def)

text \<open>
  The values of the edge predictors along a path, and their sum as the refined model adds
  them: the value of the last edge, then every earlier edge added in front of the sum of
  the edges after it.
\<close>

definition edgeValues ::
  "('ep \<Rightarrow> real list \<Rightarrow> real) \<Rightarrow> ('sr, 'ep) ForestPredictor \<Rightarrow> real list \<Rightarrow> (nat \<times> nat) list \<Rightarrow> real list" where
  "edgeValues epf f x path = map (\<lambda>(j, p). epf (GetPredictor (edgeAt f j p)) x) path"

fun sumLeafUp :: "(real \<Rightarrow> real \<Rightarrow> real) \<Rightarrow> real list \<Rightarrow> real" where
  "sumLeafUp add [] = 0"
| "sumLeafUp add [v] = v"
| "sumLeafUp add (v # w # vs) = add v (sumLeafUp add (w # vs))"

definition nodeValue ::
  "(real \<Rightarrow> real \<Rightarrow> real) \<Rightarrow> ('sr \<Rightarrow> real list \<Rightarrow> bool) \<Rightarrow> ('ep \<Rightarrow> real list \<Rightarrow> real) \<Rightarrow>
   ('sr, 'ep) ForestPredictor \<Rightarrow> real list \<Rightarrow> nat \<Rightarrow> real" where
  "nodeValue add sp epf f x i =
     sumLeafUp add (edgeValues epf f x (the (VisitEdgePathToLeaf sp f x i)))"

lemma sumLeafUp_Cons: "vs \<noteq> [] \<Longrightarrow> sumLeafUp add (v # vs) = add v (sumLeafUp add vs)"
  by (cases vs) simp_all

lemma nodeValue_unfold:
  assumes "wf_forest f" "i < length (GetInteriorNodes f)"
  shows "nodeValue add sp epf f x i =
         (if IsTargetInterior (edgeAt f i (edgePositionOf sp f x i))
          then add (epf (GetPredictor (edgeAt f i (edgePositionOf sp f x i))) x)
                 (nodeValue add sp epf f x (GetTargetNodeIndex (edgeAt f i (edgePositionOf sp f x i))))
          else epf (GetPredictor (edgeAt f i (edgePositionOf sp f x i))) x)"
proof -
  let ?e = "edgeAt f i (edgePositionOf sp f x i)"
  show ?thesis
  proof (cases "IsTargetInterior ?e")
    case True
    then have lt: "leadsTo f i (edgePositionOf sp f x i) (GetTargetNodeIndex ?e)"
      by (simp add: leadsTo_def)
    from wf_target[OF assms _ lt] have c: "GetTargetNodeIndex ?e < length (GetInteriorNodes f)" by simp
    from Visit_unfold[OF assms(1) c, of sp x] obtain q qs where
      "VisitEdgePathToLeaf sp f x (GetTargetNodeIndex ?e) = Some (q # qs)" by blast
    then show ?thesis using True
      by (simp add: nodeValue_def Visit_unfold[OF assms] edgeValues_def sumLeafUp_Cons)
  next
    case False
    then show ?thesis
      by (simp add: nodeValue_def Visit_unfold[OF assms] edgeValues_def)
  qed
qed

lemma foldl_edgeValues:
  "foldl (\<lambda>acc (j, p). add acc (epf (GetPredictor (edgeAt f j p)) x)) a path =
   foldl add a (edgeValues epf f x path)"
  by (induction path arbitrary: a) (auto simp: edgeValues_def)

lemma PredictTree_with_path:
  "VisitEdgePathToLeaf sp f x i = Some path \<Longrightarrow>
   PredictTree_with add sp epf f x i = Some (foldl add 0 (edgeValues epf f x path))"
  by (simp add: PredictTree_with_def foldl_edgeValues)

lemma stepTo_target:
  "stepTo sp f x a b \<longleftrightarrow> a < length (GetInteriorNodes f) \<and>
     IsTargetInterior (edgeAt f a (edgePositionOf sp f x a)) \<and>
     b = GetTargetNodeIndex (edgeAt f a (edgePositionOf sp f x a))"
  by (auto simp: stepTo_def leadsTo_def)

lemma reach_unfold:
  assumes "r < length (GetInteriorNodes f)"
  shows "(stepTo sp f x)\<^sup>*\<^sup>* r j \<longleftrightarrow>
         j = r \<or> (IsTargetInterior (edgeAt f r (edgePositionOf sp f x r)) \<and>
                  (stepTo sp f x)\<^sup>*\<^sup>* (GetTargetNodeIndex (edgeAt f r (edgePositionOf sp f x r))) j)"
proof
  assume "(stepTo sp f x)\<^sup>*\<^sup>* r j"
  then show "j = r \<or> (IsTargetInterior (edgeAt f r (edgePositionOf sp f x r)) \<and>
                  (stepTo sp f x)\<^sup>*\<^sup>* (GetTargetNodeIndex (edgeAt f r (edgePositionOf sp f x r))) j)"
    by (cases rule: converse_rtranclpE) (auto simp: stepTo_target)
next
  assume "j = r \<or> (IsTargetInterior (edgeAt f r (edgePositionOf sp f x r)) \<and>
                  (stepTo sp f x)\<^sup>*\<^sup>* (GetTargetNodeIndex (edgeAt f r (edgePositionOf sp f x r))) j)"
  then show "(stepTo sp f x)\<^sup>*\<^sup>* r j"
  proof
    assume "j = r" then show ?thesis by simp
  next
    assume a: "IsTargetInterior (edgeAt f r (edgePositionOf sp f x r)) \<and>
                  (stepTo sp f x)\<^sup>*\<^sup>* (GetTargetNodeIndex (edgeAt f r (edgePositionOf sp f x r))) j"
    then have "stepTo sp f x r (GetTargetNodeIndex (edgeAt f r (edgePositionOf sp f x r)))"
      using assms by (simp add: stepTo_target)
    with a show ?thesis by (blast intro: converse_rtranclp_into_rtranclp)
  qed
qed

lemma reach_less:
  assumes "wf_forest f" "(stepTo sp f x)\<^sup>*\<^sup>* r j" "r < length (GetInteriorNodes f)"
  shows "j < length (GetInteriorNodes f)"
  using assms(2,3)
proof (induction rule: rtranclp_induct)
  case base
  then show ?case .
next
  case (step y z)
  then have "y < length (GetInteriorNodes f)" by simp
  with step(2) wf_target[OF assms(1) this, of "edgePositionOf sp f x y" z] show ?case
    by (simp add: stepTo_def)
qed

lemma Visit_set:
  assumes "wf_forest f"
  shows "r < length (GetInteriorNodes f) \<Longrightarrow>
         set (the (VisitEdgePathToLeaf sp f x r)) =
         {(j, edgePositionOf sp f x j) | j. (stepTo sp f x)\<^sup>*\<^sup>* r j}"
proof (induction "length (GetInteriorNodes f) - r" arbitrary: r rule: less_induct)
  case less
  let ?e = "edgeAt f r (edgePositionOf sp f x r)"
  show ?case
  proof (cases "IsTargetInterior ?e")
    case True
    then have lt: "leadsTo f r (edgePositionOf sp f x r) (GetTargetNodeIndex ?e)"
      by (simp add: leadsTo_def)
    from wf_target[OF assms less.prems _ lt]
    have c: "r < GetTargetNodeIndex ?e" "GetTargetNodeIndex ?e < length (GetInteriorNodes f)" by simp_all
    then have "length (GetInteriorNodes f) - GetTargetNodeIndex ?e < length (GetInteriorNodes f) - r"
      by arith
    from less.hyps[OF this c(2)]
    have IH: "set (the (VisitEdgePathToLeaf sp f x (GetTargetNodeIndex ?e))) =
         {(j, edgePositionOf sp f x j) | j. (stepTo sp f x)\<^sup>*\<^sup>* (GetTargetNodeIndex ?e) j}" .
    show ?thesis
      using True by (auto simp: Visit_unfold[OF assms less.prems] IH reach_unfold[OF less.prems, of sp x])
  next
    case False
    then show ?thesis
      by (auto simp: Visit_unfold[OF assms less.prems] reach_unfold[OF less.prems, of sp x])
  qed
qed

lemma active_orphan:
  assumes "wf_forest f" "j < length (GetInteriorNodes f)" "\<not> hasParent f j"
  shows "active sp f x j"
  using wf_orphan[OF assms] by (auto simp: active_def)

lemma active_child:
  assumes wf: "wf_forest f" and p: "p < length (GetInteriorNodes f)" and q: "q < 2"
    and lt: "leadsTo f p q j"
  shows "active sp f x j \<longleftrightarrow> active sp f x p \<and> edgePositionOf sp f x p = q"
proof
  assume "active sp f x j"
  then obtain r where r: "r \<in> set (GetRootIndices f)" "(stepTo sp f x)\<^sup>*\<^sup>* r j"
    by (auto simp: active_def)
  from r(2) show "active sp f x p \<and> edgePositionOf sp f x p = q"
  proof (cases rule: rtranclp.cases)
    case rtrancl_refl
    then have "hasParent f r" using p q lt by (auto simp: hasParent_def)
    with wf_root[OF wf r(1)] show ?thesis by simp
  next
    case (rtrancl_into_rtrancl b)
    then have b: "b < length (GetInteriorNodes f)" "leadsTo f b (edgePositionOf sp f x b) j"
      by (simp_all add: stepTo_def)
    from wf_unique[OF wf b(1) _ b(2) p q lt] have "b = p" "edgePositionOf sp f x p = q" by auto
    with rtrancl_into_rtrancl(1) r(1) show ?thesis by (auto simp: active_def)
  qed
next
  assume a: "active sp f x p \<and> edgePositionOf sp f x p = q"
  then obtain r where r: "r \<in> set (GetRootIndices f)" "(stepTo sp f x)\<^sup>*\<^sup>* r p"
    by (auto simp: active_def)
  have "stepTo sp f x p j" using a p lt by (simp add: stepTo_def)
  with r show "active sp f x j" by (auto simp: active_def intro: rtranclp.rtrancl_into_rtrancl)
qed

lemma foldM_markEdge:
  assumes wf: "wf_forest f"
  shows "\<forall>(j, p)\<in>set ps. j < length (GetInteriorNodes f) \<and> p < 2 \<Longrightarrow> length v = NumEdges f \<Longrightarrow>
    \<exists>v'. foldM (markEdge f) ps v = Some v' \<and> length v' = length v \<and>
         (\<forall>k<length v. v' ! k = (v ! k \<or> (k div 2, k mod 2) \<in> set ps))"
proof (induction ps arbitrary: v)
  case Nil
  then show ?case by simp
next
  case (Cons a ps)
  obtain j p where a: "a = (j, p)" by (cases a)
  from Cons.prems a have jp: "j < length (GetInteriorNodes f)" "p < 2" by auto
  then have idx: "GetFirstEdgeIndex (GetInteriorNodes f ! j) + p = 2 * j + p" "2 * j + p < length v"
    using wf_firstEdge[OF wf jp(1)] wf_numEdges[OF wf] Cons.prems(2) by simp_all
  have "\<forall>(j, p)\<in>set ps. j < length (GetInteriorNodes f) \<and> p < 2" using Cons.prems(1) by simp
  from Cons.IH[OF this, of "v[2 * j + p := True]"] Cons.prems(2)
  obtain v' where v': "foldM (markEdge f) ps (v[2 * j + p := True]) = Some v'" "length v' = length v"
    "\<forall>k<length v. v' ! k = (v[2 * j + p := True] ! k \<or> (k div 2, k mod 2) \<in> set ps)" by auto
  have "\<forall>k<length v. v' ! k = (v ! k \<or> (k div 2, k mod 2) \<in> set (a # ps))"
  proof (intro allI impI)
    fix k assume k: "k < length v"
    have "(k = 2 * j + p) = (k div 2 = j \<and> k mod 2 = p)" using jp(2) by auto
    then show "v' ! k = (v ! k \<or> (k div 2, k mod 2) \<in> set (a # ps))"
      using v'(3) k a by (auto simp: nth_list_update)
  qed
  moreover have "markEdge f a v = Some (v[2 * j + p := True])"
    using idx a by (simp add: markEdge_def)
  ultimately show ?case using v'(1,2) by simp
qed

definition edgeIndicatorOf ::
  "('sr \<Rightarrow> real list \<Rightarrow> bool) \<Rightarrow> ('sr, 'ep) ForestPredictor \<Rightarrow> real list \<Rightarrow> nat \<Rightarrow> bool" where
  "edgeIndicatorOf sp f x k \<longleftrightarrow> active sp f x (k div 2) \<and> edgePositionOf sp f x (k div 2) = k mod 2"

lemma GetEdgeIndicatorVector_wf:
  assumes wf: "wf_forest f"
  shows "GetEdgeIndicatorVector sp f x = Some (map (edgeIndicatorOf sp f x) [0..<NumEdges f])"
proof -
  let ?paths = "map (\<lambda>r. the (VisitEdgePathToLeaf sp f x r)) (GetRootIndices f)"
  have roots: "\<And>r. r \<in> set (GetRootIndices f) \<Longrightarrow> r < length (GetInteriorNodes f)"
    using wf_root[OF wf] by blast
  have paths: "those (map (VisitEdgePathToLeaf sp f x) (GetRootIndices f)) = Some ?paths"
  proof (rule those_map_Some)
    fix r assume "r \<in> set (GetRootIndices f)"
    from Visit_total[OF wf roots[OF this], of sp x]
    show "VisitEdgePathToLeaf sp f x r = Some (the (VisitEdgePathToLeaf sp f x r))" by auto
  qed
  have mem: "\<And>j p. (j, p) \<in> set (concat ?paths) \<longleftrightarrow>
      (\<exists>r\<in>set (GetRootIndices f). (stepTo sp f x)\<^sup>*\<^sup>* r j \<and> p = edgePositionOf sp f x j)"
    using Visit_set[OF wf roots, of _ sp x] by auto
  have "\<forall>(j, p)\<in>set (concat ?paths). j < length (GetInteriorNodes f) \<and> p < 2"
    using mem reach_less[OF wf _ roots] by (auto simp del: set_concat)
  from foldM_markEdge[OF wf this, of "replicate (NumEdges f) False"]
  obtain v' where v': "foldM (markEdge f) (concat ?paths) (replicate (NumEdges f) False) = Some v'"
    "length v' = NumEdges f"
    "\<forall>k<NumEdges f. v' ! k = ((k div 2, k mod 2) \<in> set (concat ?paths))" by auto
  have "v' = map (edgeIndicatorOf sp f x) [0..<NumEdges f]"
  proof (rule nth_equalityI)
    show "length v' = length (map (edgeIndicatorOf sp f x) [0..<NumEdges f])" using v'(2) by simp
  next
    fix k assume "k < length v'"
    then have k: "k < NumEdges f" using v'(2) by simp
    with v'(3) have "v' ! k = ((k div 2, k mod 2) \<in> set (concat ?paths))" by blast
    also have "\<dots> = edgeIndicatorOf sp f x k"
      unfolding mem edgeIndicatorOf_def active_def by auto
    finally show "v' ! k = map (edgeIndicatorOf sp f x) [0..<NumEdges f] ! k" using k by simp
  qed
  with v'(1) paths show ?thesis by (simp add: GetEdgeIndicatorVector_def)
qed

definition treeValue_with ::
  "(real \<Rightarrow> real \<Rightarrow> real) \<Rightarrow> ('sr \<Rightarrow> real list \<Rightarrow> bool) \<Rightarrow> ('ep \<Rightarrow> real list \<Rightarrow> real) \<Rightarrow>
   ('sr, 'ep) ForestPredictor \<Rightarrow> real list \<Rightarrow> nat \<Rightarrow> real" where
  "treeValue_with add sp epf f x i = the (PredictTree_with add sp epf f x i)"

abbreviation treeValue ::
  "('sr \<Rightarrow> real list \<Rightarrow> bool) \<Rightarrow> ('ep \<Rightarrow> real list \<Rightarrow> real) \<Rightarrow> ('sr, 'ep) ForestPredictor \<Rightarrow>
   real list \<Rightarrow> nat \<Rightarrow> real" where
  "treeValue \<equiv> treeValue_with (+)"

lemma Compute_with_wf:
  assumes wf: "wf_forest f"
  shows "Compute_with add sp epf f x =
         Some [[D (foldl add (GetBias f) (map (treeValue_with add sp epf f x) (GetRootIndices f)))],
               map D (map (treeValue_with add sp epf f x) (GetRootIndices f)),
               map B (map (edgeIndicatorOf sp f x) [0..<NumEdges f])]"
proof -
  have roots: "\<And>r. r \<in> set (GetRootIndices f) \<Longrightarrow> r < length (GetInteriorNodes f)"
    using wf_root[OF wf] by blast
  have t1: "those (map (PredictTree_with add sp epf f x) (GetRootIndices f)) =
            Some (map (treeValue_with add sp epf f x) (GetRootIndices f))"
    by (rule those_map_Some) (simp add: treeValue_with_def PredictTree_total[OF wf roots, symmetric])
  have "those (map (\<lambda>i. PredictTree_with add sp epf f x (GetRootIndex f i)) [0..<NumTrees f]) =
        Some (map (\<lambda>i. treeValue_with add sp epf f x (GetRootIndex f i)) [0..<NumTrees f])"
    by (rule those_map_Some)
       (simp add: treeValue_with_def GetRootIndex_def NumTrees_def PredictTree_total[OF wf roots, symmetric])
  moreover have "map (\<lambda>i. treeValue_with add sp epf f x (GetRootIndex f i)) [0..<NumTrees f] =
        map (treeValue_with add sp epf f x) (GetRootIndices f)"
    by (rule nth_equalityI) (simp_all add: NumTrees_def GetRootIndex_def)
  ultimately show ?thesis
    by (simp add: Compute_with_def Predict_with_def t1 GetEdgeIndicatorVector_wf[OF wf])
qed

lemma Compute_wf:
  assumes wf: "wf_forest f"
  shows "Compute sp epf f x =
         Some [[D (foldl (+) (GetBias f) (map (treeValue sp epf f x) (GetRootIndices f)))],
               map D (map (treeValue sp epf f x) (GetRootIndices f)),
               map B (map (edgeIndicatorOf sp f x) [0..<NumEdges f])]"
  using Compute_with_wf[OF assms] .

lemma sumLeafUp_plus: "sumLeafUp (+) vs = sum_list vs"
  by (induction "(+) :: real \<Rightarrow> real \<Rightarrow> real" vs rule: sumLeafUp.induct) simp_all

lemma foldl_plus_sum_list: "foldl (+) (a :: real) xs = a + sum_list xs"
  by (induction xs arbitrary: a) (simp_all add: algebra_simps)

lemma nodeValue_exact:
  assumes "wf_forest f" "i < length (GetInteriorNodes f)"
  shows "nodeValue (+) sp epf f x i = treeValue sp epf f x i"
proof -
  from Visit_total[OF assms, of sp x] obtain path where
    p: "VisitEdgePathToLeaf sp f x i = Some path" by blast
  show ?thesis
    by (simp add: nodeValue_def treeValue_with_def PredictTree_with_path[OF p] p
          sumLeafUp_plus foldl_plus_sum_list)
qed


section \<open>Evaluation of a growing model\<close>

lemma eval_pe_Nil [simp]: "eval_pe env [] = Some []"
  by (simp add: eval_pe_def)

lemma eval_pe_Cons:
  "eval_pe env (r # rs) =
     (case eval_elem env r of None \<Rightarrow> None
      | Some v \<Rightarrow> map_option ((#) v) (eval_pe env rs))"
  by (simp add: eval_pe_def split: option.splits)

lemma eval_pe_append:
  "eval_pe env a = Some va \<Longrightarrow> eval_pe env b = Some vb \<Longrightarrow> eval_pe env (a @ b) = Some (va @ vb)"
  by (induction a arbitrary: va) (auto simp: eval_pe_Cons split: option.splits)

lemma eval_pe_length: "eval_pe env pe = Some vs \<Longrightarrow> length vs = length pe"
  by (induction pe arbitrary: vs) (auto simp: eval_pe_Cons split: option.splits)

lemma eval_elem_mono: "eval_elem env r = Some v \<Longrightarrow> eval_elem (env @ es) r = Some v"
  by (cases r) (auto simp: eval_elem_def vec_read_def nth_append split: Option.bind_splits if_splits)

lemma eval_pe_mono: "eval_pe env pe = Some vs \<Longrightarrow> eval_pe (env @ es) pe = Some vs"
  by (induction pe arbitrary: vs) (auto simp: eval_pe_Cons eval_elem_mono split: option.splits)

lemma eval_pe_prefix: "eval_pe env pe = Some vs \<Longrightarrow> prefix env env' \<Longrightarrow> eval_pe env' pe = Some vs"
  by (auto simp: prefix_def eval_pe_mono)

lemma those_map_id: "those (map Some xs) = Some xs"
  by (induction xs) simp_all

lemma those_as_double [simp]: "those (map (as_double \<circ> D) xs) = Some xs"
  by (induction xs) (simp_all add: as_double_def)

lemma those_as_bool [simp]: "those (map (as_bool \<circ> B) bs) = Some bs"
  by (induction bs) (simp_all add: as_bool_def)

lemma read_doubles_eval: "eval_pe env pe = Some (map D xs) \<Longrightarrow> read_doubles env pe = Some xs"
  by (simp add: read_doubles_def)

lemma read_bools_eval: "eval_pe env pe = Some (map B bs) \<Longrightarrow> read_bools env pe = Some bs"
  by (simp add: read_bools_def)

lemma read_doubles_prefix:
  "read_doubles env pe = Some xs \<Longrightarrow> prefix env env' \<Longrightarrow> read_doubles env' pe = Some xs"
proof -
  assume a: "read_doubles env pe = Some xs" and p: "prefix env env'"
  from a obtain vs where vs: "eval_pe env pe = Some vs" "those (map as_double vs) = Some xs"
    by (auto simp: read_doubles_def split: Option.bind_splits)
  from eval_pe_prefix[OF vs(1) p] vs(2) show ?thesis by (simp add: read_doubles_def)
qed

lemma eval_pe_concat:
  "\<forall>k<length pes. eval_pe env (pes ! k) = Some [g k] \<Longrightarrow>
   eval_pe env (concat pes) = Some (map g [0..<length pes])"
proof (induction pes rule: rev_induct)
  case Nil
  then show ?case by simp
next
  case (snoc pe pes)
  have "\<forall>k<length pes. eval_pe env (pes ! k) = Some [g k]"
  proof (intro allI impI)
    fix k assume k: "k < length pes"
    with snoc.prems[rule_format, of k] show "eval_pe env (pes ! k) = Some [g k]"
      by (simp add: nth_append)
  qed
  from snoc.IH[OF this] have a: "eval_pe env (concat pes) = Some (map g [0..<length pes])" .
  from snoc.prems[rule_format, of "length pes"] have b: "eval_pe env pe = Some [g (length pes)]"
    by simp
  from eval_pe_append[OF a b] show ?case by simp
qed

lemma eval_pe_new_port:
  "p < length v \<Longrightarrow> eval_pe (env @ [v]) (PortRange (length env) p (length (v ! p))) = Some (v ! p)"
proof -
  assume p: "p < length v"
  have "map (eval_elem (env @ [v])) (PortRange (length env) p (length (v ! p))) = map Some (v ! p)"
    by (rule nth_equalityI) (simp_all add: PortRange_def eval_elem_def p)
  then show ?thesis by (simp add: eval_pe_def those_map_id)
qed

lemma eval_pe_new_elem:
  "i < length vs \<Longrightarrow> eval_pe (env @ [[vs]]) [(length env, 0, i)] = Some [vs ! i]"
  by (simp add: eval_pe_Cons eval_elem_def)

lemma run_append:
  "run_with add sp epf env (a @ b) = Option.bind (run_with add sp epf env a) (\<lambda>e. run_with add sp epf e b)"
  by (induction a arbitrary: env) (auto split: Option.bind_split)

lemma run_length: "run_with add sp epf env ns = Some env' \<Longrightarrow> length env' = length env + length ns"
  by (induction ns arbitrary: env) (auto split: Option.bind_splits)

definition evaluates_with ::
  "(real \<Rightarrow> real \<Rightarrow> real) \<Rightarrow> ('sr \<Rightarrow> real list \<Rightarrow> bool) \<Rightarrow> ('ep \<Rightarrow> real list \<Rightarrow> real) \<Rightarrow>
   ('sr, 'ep) ModelTransformer \<Rightarrow> env \<Rightarrow> bool" where
  "evaluates_with add sp epf t env \<longleftrightarrow> EvaluateModel_with add sp epf (model t) = Some env"

abbreviation evaluates ::
  "('sr \<Rightarrow> real list \<Rightarrow> bool) \<Rightarrow> ('ep \<Rightarrow> real list \<Rightarrow> real) \<Rightarrow> ('sr, 'ep) ModelTransformer \<Rightarrow> env \<Rightarrow> bool" where
  "evaluates \<equiv> evaluates_with (+)"

definition extends ::
  "('sr, 'ep) ModelTransformer \<Rightarrow> env \<Rightarrow> ('sr, 'ep) ModelTransformer \<Rightarrow> env \<Rightarrow> bool" where
  "extends t env t' env' \<longleftrightarrow>
     prefix (model t) (model t') \<and> prefix env env' \<and> outputMap t' = outputMap t"

lemma extends_refl [simp]: "extends t env t env"
  by (simp add: extends_def)

lemma extends_trans: "extends t env t' env' \<Longrightarrow> extends t' env' t'' env'' \<Longrightarrow> extends t env t'' env''"
  by (auto simp: extends_def)

lemma evaluates_length: "evaluates_with add sp epf t env \<Longrightarrow> length env = length (model t)"
  by (auto simp: evaluates_with_def EvaluateModel_with_def dest: run_length)

lemma extends_node:
  "extends t env t' env' \<Longrightarrow> i < length (model t) \<Longrightarrow> model t' ! i = model t ! i"
  by (auto simp: extends_def prefix_def nth_append)

lemma extends_length: "extends t env t' env' \<Longrightarrow> length (model t) \<le> length (model t')"
  by (auto simp: extends_def prefix_def)

lemma AddNode_step:
  assumes "evaluates_with add sp epf t env" "ComputeNode_with add sp epf env n = Some v"
  shows "evaluates_with add sp epf (snd (AddNode t n)) (env @ [v])"
    and "fst (AddNode t n) = (length env, n)"
    and "extends t env (snd (AddNode t n)) (env @ [v])"
    and "model (snd (AddNode t n)) = model t @ [n]"
  using assms evaluates_length[OF assms(1)]
  by (simp_all add: AddNode_def evaluates_with_def EvaluateModel_with_def run_append extends_def)


section \<open>Phase A\<close>

lemma PortRange_one [simp]: "PortRange n p (Suc 0) = [(n, p, 0)]"
  by (simp add: PortRange_def)

lemma length_PortRange [simp]: "length (PortRange n p k) = k"
  by (simp add: PortRange_def)

lemma eval_pe_single_D:
  "eval_pe env pe = Some [D v] \<Longrightarrow> read_doubles env pe = Some [v]"
  using read_doubles_eval[of env pe "[v]"] by simp

lemma eval_pe_single_B:
  "eval_pe env pe = Some [B b] \<Longrightarrow> read_bools env pe = Some [b]"
  using read_bools_eval[of env pe "[b]"] by simp

lemma edgeStep_leaf:
  assumes ev: "evaluates_with add sp epf t env" and inp: "read_doubles env inp = Some x"
    and leaf: "\<not> IsTargetInterior e"
  shows "\<exists>t' env'. edgeStep inp SM e (t, eo) = Some (t', eo @ [(length env, 0, 0)]) \<and>
           evaluates_with add sp epf t' env' \<and> extends t env t' env' \<and>
           eval_pe env' [(length env, 0, 0)] = Some [D (epf (GetPredictor e) x)]"
proof -
  let ?n = "EdgePredictorNode (GetPredictor e) inp :: ('a, 'b) Node"
  let ?v = "[[D (epf (GetPredictor e) x)]]"
  have c: "ComputeNode_with add sp epf env ?n = Some ?v" using inp by simp
  note st = AddNode_step[OF ev c]
  have "edgeStep inp SM e (t, eo) = Some (snd (AddNode t ?n), eo @ [(length env, 0, 0)])"
    using leaf st(2)
    by (simp add: edgeStep_def AddEdgePredictorToModelTransformer_def OutputPort_def split_beta)
  moreover have "eval_pe (env @ [?v]) [(length env, 0, 0)] = Some [D (epf (GetPredictor e) x)]"
    using eval_pe_new_elem[of 0 "[D (epf (GetPredictor e) x)]" env] by simp
  ultimately show ?thesis using st(1,3) by blast
qed

lemma edgeStep_interior:
  assumes ev: "evaluates_with add sp epf t env" and inp: "read_doubles env inp = Some x"
    and int: "IsTargetInterior e" and tgt: "GetTargetNodeIndex e < length SM"
    and sub: "eval_pe env (SM ! GetTargetNodeIndex e) = Some [D v]"
  shows "\<exists>t' env'. edgeStep inp SM e (t, eo) = Some (t', eo @ [(Suc (length env), 0, 0)]) \<and>
           evaluates_with add sp epf t' env' \<and> extends t env t' env' \<and>
           eval_pe env' [(Suc (length env), 0, 0)] = Some [D (add (epf (GetPredictor e) x) v)]"
proof -
  let ?n1 = "EdgePredictorNode (GetPredictor e) inp :: ('a, 'b) Node"
  let ?v1 = "[[D (epf (GetPredictor e) x)]]"
  let ?env1 = "env @ [?v1]"
  let ?t1 = "snd (AddNode t ?n1)"
  let ?el = "SM ! GetTargetNodeIndex e"
  let ?n2 = "BinaryOperationNode_add [(length env, 0, 0)] ?el :: ('a, 'b) Node"
  let ?v2 = "[[D (add (epf (GetPredictor e) x) v)]]"
  have c1: "ComputeNode_with add sp epf env ?n1 = Some ?v1" using inp by simp
  note st1 = AddNode_step[OF ev c1]
  have len: "length ?el = 1" using eval_pe_length[OF sub] by simp
  have r1: "read_doubles ?env1 [(length env, 0, 0)] = Some [epf (GetPredictor e) x]"
    using eval_pe_new_elem[of 0 "[D (epf (GetPredictor e) x)]" env]
    by (simp add: eval_pe_single_D)
  have r2: "read_doubles ?env1 ?el = Some [v]"
    using eval_pe_mono[OF sub, of "[?v1]"] by (simp add: eval_pe_single_D)
  have c2: "ComputeNode_with add sp epf ?env1 ?n2 = Some ?v2" using r1 r2 by simp
  note st2 = AddNode_step[OF st1(1) c2]
  have "edgeStep inp SM e (t, eo) = Some (snd (AddNode ?t1 ?n2), eo @ [(Suc (length env), 0, 0)])"
    using int tgt st1(2) st2(2)
    by (simp add: edgeStep_def AddEdgePredictorToModelTransformer_def OutputPort_def split_beta)
  moreover have "eval_pe (?env1 @ [?v2]) [(Suc (length env), 0, 0)] = Some [D (add (epf (GetPredictor e) x) v)]"
    using eval_pe_new_elem[of 0 "[D (add (epf (GetPredictor e) x) v)]" ?env1] by simp
  moreover have "extends t env (snd (AddNode ?t1 ?n2)) (?env1 @ [?v2])"
    using extends_trans[OF st1(3) st2(3)] .
  ultimately show ?thesis using st2(1) by blast
qed

lemma edgeStep_spec:
  assumes ev: "evaluates_with add sp epf t env" and inp: "read_doubles env inp = Some x"
    and tgt: "IsTargetInterior e \<Longrightarrow> GetTargetNodeIndex e < length SM \<and>
              eval_pe env (SM ! GetTargetNodeIndex e) = Some [D v]"
  shows "\<exists>t' env' r. edgeStep inp SM e (t, eo) = Some (t', eo @ [r]) \<and>
           evaluates_with add sp epf t' env' \<and> extends t env t' env' \<and>
           eval_pe env' [r] =
             Some [D (if IsTargetInterior e then add (epf (GetPredictor e) x) v
                      else epf (GetPredictor e) x)]"
proof (cases "IsTargetInterior e")
  case True
  with tgt have "GetTargetNodeIndex e < length SM"
    "eval_pe env (SM ! GetTargetNodeIndex e) = Some [D v]" by simp_all
  from edgeStep_interior[OF ev inp True this, of eo] show ?thesis using True by auto
next
  case False
  from edgeStep_leaf[OF ev inp False, of SM eo] show ?thesis using False by auto
qed

definition splitOf ::
  "('sr \<Rightarrow> real list \<Rightarrow> bool) \<Rightarrow> ('sr, 'ep) ForestPredictor \<Rightarrow> real list \<Rightarrow> nat \<Rightarrow> bool" where
  "splitOf sp f x i = sp (GetSplitRule (GetInteriorNodes f ! i)) x"

text \<open>
  What Phase A has built for the interior node \<open>j\<close>: \<open>si\<close> and \<open>sm\<close> are the entries \<open>j\<close> of
  \<^verbatim>\<open>interiorNodeSplitIndicators\<close> and \<^verbatim>\<open>interiorNodeSubModels\<close>.
\<close>

definition nodeA_ok_with ::
  "(real \<Rightarrow> real \<Rightarrow> real) \<Rightarrow> ('sr \<Rightarrow> real list \<Rightarrow> bool) \<Rightarrow> ('ep \<Rightarrow> real list \<Rightarrow> real) \<Rightarrow>
   ('sr, 'ep) ForestPredictor \<Rightarrow> PortElements \<Rightarrow> real list \<Rightarrow> ('sr, 'ep) ModelTransformer \<Rightarrow> env \<Rightarrow> nat \<Rightarrow>
   PortElements \<Rightarrow> PortElements \<Rightarrow> bool" where
  "nodeA_ok_with add sp epf f inp x t env j si sm \<longleftrightarrow>
     (\<exists>sid sel eo. si = [(sid, 0, 0)] \<and> sid < length (model t) \<and>
        model t ! sid = SplitRuleNode (GetSplitRule (GetInteriorNodes f ! j)) inp \<and>
        sm = [(sel, 0, 0)] \<and> sel < length (model t) \<and>
        model t ! sel = ElementSelectorNode eo si \<and> length eo = 2) \<and>
     eval_pe env si = Some [B (splitOf sp f x j)] \<and>
     eval_pe env sm = Some [D (nodeValue add sp epf f x j)]"

abbreviation nodeA_ok ::
  "('sr \<Rightarrow> real list \<Rightarrow> bool) \<Rightarrow> ('ep \<Rightarrow> real list \<Rightarrow> real) \<Rightarrow> ('sr, 'ep) ForestPredictor \<Rightarrow>
   PortElements \<Rightarrow> real list \<Rightarrow> ('sr, 'ep) ModelTransformer \<Rightarrow> env \<Rightarrow> nat \<Rightarrow>
   PortElements \<Rightarrow> PortElements \<Rightarrow> bool" where
  "nodeA_ok \<equiv> nodeA_ok_with (+)"

lemma nodeA_ok_extends:
  assumes "nodeA_ok_with add sp epf f inp x t env j si sm" "extends t env t' env'"
  shows "nodeA_ok_with add sp epf f inp x t' env' j si sm"
proof -
  from assms(1) obtain sid sel eo where a: "si = [(sid, 0, 0)]" "sid < length (model t)"
    "model t ! sid = SplitRuleNode (GetSplitRule (GetInteriorNodes f ! j)) inp"
    "sm = [(sel, 0, 0)]" "sel < length (model t)" "model t ! sel = ElementSelectorNode eo si"
    "length eo = 2"
    and e: "eval_pe env si = Some [B (splitOf sp f x j)]"
    "eval_pe env sm = Some [D (nodeValue add sp epf f x j)]"
    unfolding nodeA_ok_with_def by blast
  have p: "prefix env env'" using assms(2) by (simp add: extends_def)
  have "sid < length (model t')" "sel < length (model t')"
    using a(2,5) extends_length[OF assms(2)] by simp_all
  moreover have "model t' ! sid = SplitRuleNode (GetSplitRule (GetInteriorNodes f ! j)) inp"
    "model t' ! sel = ElementSelectorNode eo si"
    using extends_node[OF assms(2)] a by simp_all
  ultimately show ?thesis
    unfolding nodeA_ok_with_def using a(1,4,7) eval_pe_prefix[OF e(1) p] eval_pe_prefix[OF e(2) p]
    by blast
qed

definition invA_with ::
  "(real \<Rightarrow> real \<Rightarrow> real) \<Rightarrow> ('sr \<Rightarrow> real list \<Rightarrow> bool) \<Rightarrow> ('ep \<Rightarrow> real list \<Rightarrow> real) \<Rightarrow>
   ('sr, 'ep) ForestPredictor \<Rightarrow> PortElements \<Rightarrow> real list \<Rightarrow> ('sr, 'ep) ModelTransformer \<Rightarrow> env \<Rightarrow> nat \<Rightarrow>
   ('sr, 'ep) stateA \<Rightarrow> bool" where
  "invA_with add sp epf f inp x t0 env0 i s \<longleftrightarrow>
     (case s of (t, SI, SM) \<Rightarrow>
        \<exists>env. evaluates_with add sp epf t env \<and> extends t0 env0 t env \<and>
          length SI = length (GetInteriorNodes f) \<and> length SM = length (GetInteriorNodes f) \<and>
          (\<forall>j. i \<le> j \<and> j < length (GetInteriorNodes f) \<longrightarrow>
             nodeA_ok_with add sp epf f inp x t env j (SI ! j) (SM ! j)))"

abbreviation invA ::
  "('sr \<Rightarrow> real list \<Rightarrow> bool) \<Rightarrow> ('ep \<Rightarrow> real list \<Rightarrow> real) \<Rightarrow> ('sr, 'ep) ForestPredictor \<Rightarrow>
   PortElements \<Rightarrow> real list \<Rightarrow> ('sr, 'ep) ModelTransformer \<Rightarrow> env \<Rightarrow> nat \<Rightarrow>
   ('sr, 'ep) stateA \<Rightarrow> bool" where
  "invA \<equiv> invA_with (+)"

lemma phaseA_body_step:
  assumes wf: "wf_forest f" and i: "i < length (GetInteriorNodes f)"
    and inp: "read_doubles env0 inp = Some x"
    and inv: "invA_with add sp epf f inp x t0 env0 (Suc i) s"
  shows "\<exists>s'. phaseA_body f inp i s = Some s' \<and> invA_with add sp epf f inp x t0 env0 i s'"
proof -
  let ?K = "length (GetInteriorNodes f)"
  let ?node = "GetInteriorNodes f ! i"
  obtain t SI SM where s: "s = (t, SI, SM)" by (cases s)
  from inv s obtain env where ev: "evaluates_with add sp epf t env" and ext: "extends t0 env0 t env"
    and lSI: "length SI = ?K" and lSM: "length SM = ?K"
    and ok: "\<And>j. Suc i \<le> j \<Longrightarrow> j < ?K \<Longrightarrow> nodeA_ok_with add sp epf f inp x t env j (SI ! j) (SM ! j)"
    unfolding invA_with_def by auto
  from wf_edges_len[OF wf i] obtain e0 e1 where edges: "GetOutgoingEdges ?node = [e0, e1]"
    by (cases "GetOutgoingEdges ?node"; cases "tl (GetOutgoingEdges ?node)") auto
  have ea: "edgeAt f i 0 = e0" "edgeAt f i 1 = e1" "edgeAt f i (Suc 0) = e1"
    by (simp_all add: edgeAt_def edges)
  let ?v0 = "if IsTargetInterior e0
             then add (epf (GetPredictor e0) x) (nodeValue add sp epf f x (GetTargetNodeIndex e0))
             else epf (GetPredictor e0) x"
  let ?v1 = "if IsTargetInterior e1
             then add (epf (GetPredictor e1) x) (nodeValue add sp epf f x (GetTargetNodeIndex e1))
             else epf (GetPredictor e1) x"
  have tgt: "\<And>e p. edgeAt f i p = e \<Longrightarrow> p < 2 \<Longrightarrow> IsTargetInterior e \<Longrightarrow>
      GetTargetNodeIndex e < length SM \<and>
      eval_pe env (SM ! GetTargetNodeIndex e) = Some [D (nodeValue add sp epf f x (GetTargetNodeIndex e))]"
  proof -
    fix e p assume e: "edgeAt f i p = e" "p < 2" "IsTargetInterior e"
    then have "leadsTo f i p (GetTargetNodeIndex e)" by (simp add: leadsTo_def)
    from wf_target[OF wf i e(2) this] have c: "Suc i \<le> GetTargetNodeIndex e" "GetTargetNodeIndex e < ?K"
      by simp_all
    from ok[OF c] show "GetTargetNodeIndex e < length SM \<and>
      eval_pe env (SM ! GetTargetNodeIndex e) = Some [D (nodeValue add sp epf f x (GetTargetNodeIndex e))]"
      using c(2) lSM by (simp add: nodeA_ok_with_def)
  qed
  have inp_env: "read_doubles env inp = Some x"
    using read_doubles_prefix[OF inp] ext by (simp add: extends_def)
  \<comment> \<open>edge 0\<close>
  from edgeStep_spec[OF ev inp_env tgt[OF ea(1)], of "[]"]
  obtain t1 env1 r0 where s1: "edgeStep inp SM e0 (t, []) = Some (t1, [r0])"
    and ev1: "evaluates_with add sp epf t1 env1" and ext1: "extends t env t1 env1"
    and val0: "eval_pe env1 [r0] = Some [D ?v0]" by auto
  have p1: "prefix env env1" using ext1 by (simp add: extends_def)
  have inp1: "read_doubles env1 inp = Some x" using read_doubles_prefix[OF inp_env p1] .
  have tgt1: "IsTargetInterior e1 \<Longrightarrow> GetTargetNodeIndex e1 < length SM \<and>
      eval_pe env1 (SM ! GetTargetNodeIndex e1) = Some [D (nodeValue add sp epf f x (GetTargetNodeIndex e1))]"
    using tgt[OF ea(2)] eval_pe_prefix[OF _ p1] by auto
  \<comment> \<open>edge 1\<close>
  from edgeStep_spec[OF ev1 inp1 tgt1, of "[r0]"]
  obtain t2 env2 r1 where s2: "edgeStep inp SM e1 (t1, [r0]) = Some (t2, [r0, r1])"
    and ev2: "evaluates_with add sp epf t2 env2" and ext2: "extends t1 env1 t2 env2"
    and val1: "eval_pe env2 [r1] = Some [D ?v1]" by auto
  have p2: "prefix env1 env2" using ext2 by (simp add: extends_def)
  have inp2: "read_doubles env2 inp = Some x" using read_doubles_prefix[OF inp1 p2] .
  have loop: "foldM (edgeStep inp SM) (GetOutgoingEdges ?node) (t, []) = Some (t2, [r0, r1])"
    using s1 s2 by (simp add: edges)
  \<comment> \<open>the split rule\<close>
  let ?n3 = "SplitRuleNode (GetSplitRule ?node) inp :: ('a, 'b) Node"
  let ?b = "splitOf sp f x i"
  let ?env3 = "env2 @ [[[B ?b]]]"
  let ?t3 = "snd (AddNode t2 ?n3)"
  let ?si = "[(length env2, 0, 0)]"
  have c3: "ComputeNode_with add sp epf env2 ?n3 = Some [[B ?b]]" using inp2 by (simp add: splitOf_def)
  note st3 = AddNode_step[OF ev2 c3]
  have valsi: "eval_pe ?env3 ?si = Some [B ?b]"
    using eval_pe_new_elem[of 0 "[B ?b]" env2] by simp
  \<comment> \<open>the selector\<close>
  let ?n4 = "ElementSelectorNode [r0, r1] ?si :: ('a, 'b) Node"
  let ?val = "[?v0, ?v1] ! (if ?b then 1 else 0)"
  let ?env4 = "?env3 @ [[[D ?val]]]"
  let ?t4 = "snd (AddNode ?t3 ?n4)"
  let ?sm = "[(Suc (length env2), 0, 0)]"
  have "eval_pe ?env3 [r0] = Some [D ?v0]"
    using eval_pe_mono[OF eval_pe_prefix[OF val0 p2]] .
  moreover have "eval_pe ?env3 [r1] = Some [D ?v1]" using eval_pe_mono[OF val1] .
  ultimately have "eval_pe ?env3 ([r0] @ [r1]) = Some ([D ?v0] @ [D ?v1])" by (rule eval_pe_append)
  then have "eval_pe ?env3 [r0, r1] = Some (map D [?v0, ?v1])" by simp
  then have rd: "read_doubles ?env3 [r0, r1] = Some [?v0, ?v1]" by (rule read_doubles_eval)
  have rb: "read_bools ?env3 ?si = Some [?b]" using valsi by (rule eval_pe_single_B)
  have c4: "ComputeNode_with add sp epf ?env3 ?n4 = Some [[D ?val]]"
    unfolding ComputeNode_with.simps rd rb by simp
  note st4 = AddNode_step[OF st3(1) c4]
  have valsm: "eval_pe ?env4 ?sm = Some [D ?val]"
    using eval_pe_new_elem[of 0 "[D ?val]" ?env3] by simp
  have tv: "nodeValue add sp epf f x i = ?val"
    unfolding nodeValue_unfold[OF wf i]
    by (simp add: edgePositionOf_def splitOf_def ea)
  \<comment> \<open>the body\<close>
  let ?SI' = "SI[i := ?si]"
  let ?SM' = "SM[i := ?sm]"
  have body: "phaseA_body f inp i s = Some (?t4, ?SI', ?SM')"
    using i lSI lSM loop st3(2) st4(2)
    by (simp add: phaseA_body_def s AddSplitRuleToModelTransformer_def OutputPort_def split_beta)
  have ext3: "extends t env ?t3 ?env3"
    using extends_trans[OF extends_trans[OF ext1 ext2] st3(3)] .
  have ext4: "extends t env ?t4 ?env4" using extends_trans[OF ext3 st4(3)] .
  have l2: "length env2 = length (model t2)" using evaluates_length[OF ev2] .
  have m4: "model ?t4 = model t2 @ [?n3, ?n4]" using st3(4) st4(4) by simp
  have oki: "nodeA_ok_with add sp epf f inp x ?t4 ?env4 i ?si ?sm"
    unfolding nodeA_ok_with_def tv
    using eval_pe_mono[OF valsi, of "[[[D ?val]]]"] valsm
    by (simp add: AddNode_def l2 nth_append)
  have "\<forall>j. i \<le> j \<and> j < ?K \<longrightarrow> nodeA_ok_with add sp epf f inp x ?t4 ?env4 j (?SI' ! j) (?SM' ! j)"
  proof (intro allI impI)
    fix j assume j: "i \<le> j \<and> j < ?K"
    show "nodeA_ok_with add sp epf f inp x ?t4 ?env4 j (?SI' ! j) (?SM' ! j)"
    proof (cases "j = i")
      case True
      then show ?thesis using oki i lSI lSM by simp
    next
      case False
      with j have "Suc i \<le> j" "j < ?K" by simp_all
      from nodeA_ok_extends[OF ok[OF this] ext4] False show ?thesis by simp
    qed
  qed
  moreover have "extends t0 env0 ?t4 ?env4" using extends_trans[OF ext ext4] .
  ultimately have "invA_with add sp epf f inp x t0 env0 i (?t4, ?SI', ?SM')"
    unfolding invA_with_def using st4(1) lSI lSM by auto
  with body show ?thesis by blast
qed


lemma foldM_down:
  assumes step: "\<And>i s. i < n \<Longrightarrow> I (Suc i) s \<Longrightarrow> \<exists>s'. body i s = Some s' \<and> I i s'"
    and init: "I n s0"
  shows "i \<le> n \<Longrightarrow> \<exists>s. foldM body (rev [i..<n]) s0 = Some s \<and> I i s"
proof (induction "n - i" arbitrary: i)
  case 0
  then show ?case using init by simp
next
  case (Suc d)
  then have i: "i < n" and d: "d = n - Suc i" "Suc i \<le> n" by simp_all
  from Suc.hyps(1)[OF d] obtain s where s: "foldM body (rev [Suc i..<n]) s0 = Some s" "I (Suc i) s"
    by blast
  from step[OF i s(2)] obtain s' where s': "body i s = Some s'" "I i s'" by blast
  have "rev [i..<n] = rev [Suc i..<n] @ [i]" using i by (simp add: upt_conv_Cons)
  then show ?case using s(1) s' by (simp add: foldM_append)
qed

lemma foldM_up:
  assumes step: "\<And>i s. i < n \<Longrightarrow> I i s \<Longrightarrow> \<exists>s'. body i s = Some s' \<and> I (Suc i) s'"
    and init: "I 0 s0"
  shows "i \<le> n \<Longrightarrow> \<exists>s. foldM body [0..<i] s0 = Some s \<and> I i s"
proof (induction i)
  case 0
  then show ?case using init by simp
next
  case (Suc i)
  then obtain s where s: "foldM body [0..<i] s0 = Some s" "I i s" by auto
  from step[OF _ s(2)] Suc.prems obtain s' where "body i s = Some s'" "I (Suc i) s'" by auto
  then show ?case using s(1) by (simp add: foldM_append)
qed

lemma wf_static_cast:
  assumes "wf_forest f"
  shows "nat (static_cast_int (length (GetInteriorNodes f))) = length (GetInteriorNodes f)"
proof -
  have "length (GetInteriorNodes f) < 2 ^ 31" using wf_numEdges[OF assms] wf_small[OF assms] by simp
  from static_cast_int_small[OF this] show ?thesis by simp
qed

lemma invA_init:
  assumes "evaluates_with add sp epf t0 env0"
  shows "invA_with add sp epf f inp x t0 env0 (length (GetInteriorNodes f))
           (t0, replicate (length (GetInteriorNodes f)) [], replicate (length (GetInteriorNodes f)) [])"
  using assms by (auto simp: invA_with_def)

text \<open>The state in which the iteration of Phase A for node \<open>i\<close> starts.\<close>

definition phaseA_before ::
  "('sr, 'ep) ForestPredictor \<Rightarrow> PortElements \<Rightarrow> ('sr, 'ep) ModelTransformer \<Rightarrow> nat \<Rightarrow> ('sr, 'ep) stateA option" where
  "phaseA_before f inp t i =
     (let k = length (GetInteriorNodes f)
      in foldM (phaseA_body f inp) (rev [Suc i..<nat (static_cast_int k)]) (t, replicate k [], replicate k []))"

lemma phaseA_through:
  "i < nat (static_cast_int (length (GetInteriorNodes f))) \<Longrightarrow>
   phaseA f inp t = Option.bind (phaseA_before f inp t i) (phaseA_loop f inp (Suc i))"
proof -
  assume i: "i < nat (static_cast_int (length (GetInteriorNodes f)))"
  let ?n = "nat (static_cast_int (length (GetInteriorNodes f)))"
  have "[0..<?n] = [0..<Suc i] @ [Suc i..<?n]"
    using i by (metis Suc_leI le0 upt_add_eq_append le_add_diff_inverse)
  then have "rev [0..<?n] = rev [Suc i..<?n] @ rev [0..<Suc i]" by (metis rev_append)
  then have "phaseA f inp t =
      foldM (phaseA_body f inp) (rev [Suc i..<?n] @ rev [0..<Suc i])
        (t, replicate (length (GetInteriorNodes f)) [], replicate (length (GetInteriorNodes f)) [])"
    by (simp only: phaseA_def phaseA_loop_def Let_def)
  also have "\<dots> = Option.bind (phaseA_before f inp t i) (phaseA_loop f inp (Suc i))"
    unfolding foldM_append by (simp only: phaseA_before_def Let_def phaseA_loop_def[abs_def])
  finally show ?thesis .
qed

lemma phaseA_before_inv:
  assumes wf: "wf_forest f" and ev: "evaluates_with add sp epf t0 env0"
    and inp: "read_doubles env0 inp = Some x" and i: "i < length (GetInteriorNodes f)"
  shows "\<exists>s. phaseA_before f inp t0 i = Some s \<and> invA_with add sp epf f inp x t0 env0 (Suc i) s"
proof -
  from i have "Suc i \<le> length (GetInteriorNodes f)" by simp
  from foldM_down[where I="invA_with add sp epf f inp x t0 env0" and body="phaseA_body f inp",
      OF phaseA_body_step[OF wf _ inp] invA_init[OF ev] this]
  show ?thesis by (simp add: phaseA_before_def Let_def wf_static_cast[OF wf])
qed

lemma phaseA_inv:
  assumes wf: "wf_forest f" and ev: "evaluates_with add sp epf t0 env0"
    and inp: "read_doubles env0 inp = Some x"
  shows "\<exists>s. phaseA f inp t0 = Some s \<and> invA_with add sp epf f inp x t0 env0 0 s"
  using foldM_down[where I="invA_with add sp epf f inp x t0 env0" and body="phaseA_body f inp" and i=0,
      OF phaseA_body_step[OF wf _ inp] invA_init[OF ev]]
  by (simp add: phaseA_def phaseA_loop_def Let_def wf_static_cast[OF wf])


section \<open>Phase B\<close>

lemma edgeIndicatorOf_even:
  "edgeIndicatorOf sp f x (2 * j) \<longleftrightarrow> active sp f x j \<and> \<not> splitOf sp f x j"
  by (simp add: edgeIndicatorOf_def edgePositionOf_def splitOf_def)

lemma edgeIndicatorOf_odd:
  "edgeIndicatorOf sp f x (Suc (2 * j)) \<longleftrightarrow> active sp f x j \<and> splitOf sp f x j"
  by (simp add: edgeIndicatorOf_def edgePositionOf_def splitOf_def)

lemma edgeIndicatorOf_edge:
  "q < 2 \<Longrightarrow> edgeIndicatorOf sp f x (2 * p + q) \<longleftrightarrow> active sp f x p \<and> edgePositionOf sp f x p = q"
  by (simp add: edgeIndicatorOf_def)

lemma vec_read_int_nat: "vec_read_int xs (int n) = vec_read xs n"
  by (simp add: vec_read_int_def)

lemma childIndicators_nonroot:
  "childIndicators EI (int n) si t =
     Option.bind (vec_read EI n) (\<lambda>parentIndicator.
       Some (snd (AddNode t (MultiplexorNode parentIndicator si 2)),
             [(fst (fst (AddNode t (MultiplexorNode parentIndicator si 2))), 0, 0)],
             [(fst (fst (AddNode t (MultiplexorNode parentIndicator si 2))), 0, 1)]))"
proof -
  have "int n \<noteq> - 1" by simp
  then show ?thesis
    unfolding childIndicators_def Let_def vec_read_int_nat
    by (simp only: if_False OutputElement_def split_beta)
qed

lemma childIndicators_spec:
  fixes t :: "('sr, 'ep) ModelTransformer"
  assumes wf: "wf_forest f" and i: "i < length (GetInteriorNodes f)"
    and ev: "evaluates_with add sp epf t env"
    and sel: "eval_pe env si = Some [B (splitOf sp f x i)]"
    and len: "length EI = NumEdges f"
    and inc1': "\<forall>p q. p < i \<and> q < 2 \<and> leadsTo f p q i \<longrightarrow> pei = int (2 * p + q)"
    and inc2': "(\<forall>p q. p < i \<and> q < 2 \<longrightarrow> \<not> leadsTo f p q i) \<longrightarrow> pei = - 1"
    and prev': "\<forall>p q. p < i \<and> q < 2 \<longrightarrow>
                 eval_pe env (EI ! (2 * p + q)) = Some [B (edgeIndicatorOf sp f x (2 * p + q))]"
  shows "\<exists>t1 env1 c1 c2. childIndicators EI pei si t = Some (t1, c1, c2) \<and>
           evaluates_with add sp epf t1 env1 \<and> extends t env t1 env1 \<and>
           eval_pe env1 c1 = Some [B (edgeIndicatorOf sp f x (2 * i))] \<and>
           eval_pe env1 c2 = Some [B (edgeIndicatorOf sp f x (Suc (2 * i)))] \<and>
           (\<not> hasParent f i \<longrightarrow>
              (\<exists>nid. nid < length (model t1) \<and>
                 model t1 ! nid = UnaryOperationNode_logicalNot si \<and> c1 = [(nid, 0, 0)] \<and> c2 = si)) \<and>
           (\<forall>p q. p < length (GetInteriorNodes f) \<and> q < 2 \<and> leadsTo f p q i \<longrightarrow>
              (\<exists>mid. mid < length (model t1) \<and>
                 model t1 ! mid = MultiplexorNode (EI ! (2 * p + q)) si 2 \<and>
                 c1 = [(mid, 0, 0)] \<and> c2 = [(mid, 0, 1)]))"
proof -
  have inc1: "\<And>p q. p < i \<Longrightarrow> q < 2 \<Longrightarrow> leadsTo f p q i \<Longrightarrow> pei = int (2 * p + q)"
    using inc1' by blast
  have inc2: "(\<forall>p q. p < i \<and> q < 2 \<longrightarrow> \<not> leadsTo f p q i) \<Longrightarrow> pei = - 1"
    using inc2' by blast
  have prev: "\<And>p q. p < i \<Longrightarrow> q < 2 \<Longrightarrow>
                 eval_pe env (EI ! (2 * p + q)) = Some [B (edgeIndicatorOf sp f x (2 * p + q))]"
    using prev' by blast
  let ?b = "splitOf sp f x i"
  have lsi: "length si = 1" using eval_pe_length[OF sel] by simp
  have rb: "read_bools env si = Some [?b]" using sel by (rule eval_pe_single_B)
  have lenv: "length env = length (model t)" using evaluates_length[OF ev] .
  show ?thesis
  proof (cases "hasParent f i")
    case True
    then obtain p q where pq: "p < length (GetInteriorNodes f)" "q < 2" "leadsTo f p q i"
      by (auto simp: hasParent_def)
    from wf_target[OF wf pq] have pi: "p < i" by simp
    from inc1[OF pi pq(2,3)] have pei: "pei = int (2 * p + q)" .
    have uniq: "\<And>p' q'. p' < length (GetInteriorNodes f) \<Longrightarrow> q' < 2 \<Longrightarrow> leadsTo f p' q' i \<Longrightarrow>
        2 * p' + q' = 2 * p + q"
      using wf_unique[OF wf _ _ _ pq] by auto
    let ?a = "edgeIndicatorOf sp f x (2 * p + q)"
    let ?pi = "EI ! (2 * p + q)"
    have inr: "2 * p + q < length EI" using len wf_numEdges[OF wf] pq(2) pi i by simp
    have ra: "read_bools env ?pi = Some [?a]" using prev[OF pi pq(2)] by (rule eval_pe_single_B)
    let ?n = "MultiplexorNode ?pi si 2 :: ('sr, 'ep) Node"
    let ?out = "[B (?a \<and> \<not> ?b), B (?a \<and> ?b)]"
    have c: "ComputeNode_with add sp epf env ?n = Some [?out]"
      unfolding ComputeNode_with.simps ra rb by (simp add: numeral_2_eq_2)
    note st = AddNode_step[OF ev c]
    have ci: "childIndicators EI pei si t =
              Some (snd (AddNode t ?n), [(length env, 0, 0)], [(length env, 0, 1)])"
      unfolding pei childIndicators_nonroot using inr st(2) by simp
    have act: "active sp f x i \<longleftrightarrow> ?a"
      using active_child[OF wf pq, of sp x] pq(2) by (simp add: edgeIndicatorOf_edge)
    have v1: "eval_pe (env @ [[?out]]) [(length env, 0, 0)] = Some [B (edgeIndicatorOf sp f x (2 * i))]"
      using eval_pe_new_elem[of 0 ?out env] by (simp add: edgeIndicatorOf_even act)
    have v2: "eval_pe (env @ [[?out]]) [(length env, 0, 1)] = Some [B (edgeIndicatorOf sp f x (Suc (2 * i)))]"
      using eval_pe_new_elem[of 1 ?out env] by (simp add: edgeIndicatorOf_odd act)
    have m: "length env < length (model (snd (AddNode t ?n)))"
      "model (snd (AddNode t ?n)) ! length env = ?n"
      by (simp_all add: st(4) lenv)
    have "\<forall>p' q'. p' < length (GetInteriorNodes f) \<and> q' < 2 \<and> leadsTo f p' q' i \<longrightarrow>
            (\<exists>mid. mid < length (model (snd (AddNode t ?n))) \<and>
               model (snd (AddNode t ?n)) ! mid = MultiplexorNode (EI ! (2 * p' + q')) si 2 \<and>
               [(length env, 0, 0)] = [(mid, 0, 0)] \<and> [(length env, 0, 1 :: nat)] = [(mid, 0, 1)])"
      using m uniq by auto
    with ci st(1,3) v1 v2 True show ?thesis by blast
  next
    case False
    then have "\<forall>p q. p < i \<and> q < 2 \<longrightarrow> \<not> leadsTo f p q i"
      using i by (auto simp: hasParent_def)
    from inc2[OF this] have pei: "pei = - 1" .
    let ?n = "UnaryOperationNode_logicalNot si :: ('sr, 'ep) Node"
    let ?out = "[B (\<not> ?b)]"
    have c: "ComputeNode_with add sp epf env ?n = Some [?out]"
      unfolding ComputeNode_with.simps rb by simp
    note st = AddNode_step[OF ev c]
    have ci: "childIndicators EI pei si t = Some (snd (AddNode t ?n), [(length env, 0, 0)], si)"
      using st(2) lsi by (simp add: childIndicators_def pei OutputPort_def split_beta)
    have act: "active sp f x i" using active_orphan[OF wf i False] .
    have v1: "eval_pe (env @ [[?out]]) [(length env, 0, 0)] = Some [B (edgeIndicatorOf sp f x (2 * i))]"
      using eval_pe_new_elem[of 0 ?out env] by (simp add: edgeIndicatorOf_even act)
    have v2: "eval_pe (env @ [[?out]]) si = Some [B (edgeIndicatorOf sp f x (Suc (2 * i)))]"
      using eval_pe_mono[OF sel, of "[[?out]]"] by (simp add: edgeIndicatorOf_odd act)
    have m: "length env < length (model (snd (AddNode t ?n)))"
      "model (snd (AddNode t ?n)) ! length env = ?n"
      by (simp_all add: st(4) lenv)
    have np: "\<forall>p q. p < length (GetInteriorNodes f) \<and> q < 2 \<and> leadsTo f p q i \<longrightarrow>
            (\<exists>mid. mid < length (model (snd (AddNode t ?n))) \<and>
               model (snd (AddNode t ?n)) ! mid = MultiplexorNode (EI ! (2 * p + q)) si 2 \<and>
               [(length env, 0, 0)] = [(mid, 0, 0)] \<and> si = [(mid, 0, 1)])"
      using False by (auto simp: hasParent_def)
    from ci st(1,3) v1 v2 m np show ?thesis by blast
  qed
qed

lemma recordParent_fold:
  assumes wf: "wf_forest f" and i: "i < length (GetInteriorNodes f)"
    and len: "length INC = length (GetInteriorNodes f)"
  shows "\<exists>INC'. foldM (recordParent (2 * i))
             (zip [0..<length (GetOutgoingEdges (GetInteriorNodes f ! i))]
                  (GetOutgoingEdges (GetInteriorNodes f ! i))) INC = Some INC' \<and>
           length INC' = length INC \<and>
           (\<forall>c<length (GetInteriorNodes f).
              INC' ! c = (if leadsTo f i 1 c then int (2 * i + 1)
                         else if leadsTo f i 0 c then int (2 * i) else INC ! c))"
proof -
  let ?K = "length (GetInteriorNodes f)"
  let ?node = "GetInteriorNodes f ! i"
  from wf_edges_len[OF wf i] obtain e0 e1 where edges: "GetOutgoingEdges ?node = [e0, e1]"
    by (cases "GetOutgoingEdges ?node"; cases "tl (GetOutgoingEdges ?node)") auto
  have ea: "edgeAt f i 0 = e0" "edgeAt f i 1 = e1" "edgeAt f i (Suc 0) = e1"
    by (simp_all add: edgeAt_def edges)
  have z: "zip [0..<length (GetOutgoingEdges ?node)] (GetOutgoingEdges ?node) = [(0, e0), (1, e1)]"
    by (simp add: edges upt_conv_Cons)
  have small: "2 * i < 2 ^ 31" "2 * i + 1 < 2 ^ 31"
    using wf_numEdges[OF wf] wf_small[OF wf] i by simp_all
  have cast: "static_cast_int (2 * i) = int (2 * i)" "static_cast_int (2 * i + 1) = int (2 * i + 1)"
    using static_cast_int_small[OF small(1)] static_cast_int_small[OF small(2)] by simp_all
  have t0: "IsTargetInterior e0 \<Longrightarrow> GetTargetNodeIndex e0 < ?K"
    using wf_target[OF wf i, of 0 "GetTargetNodeIndex e0"] by (simp add: leadsTo_def ea)
  have t1: "IsTargetInterior e1 \<Longrightarrow> GetTargetNodeIndex e1 < ?K"
    using wf_target[OF wf i, of 1 "GetTargetNodeIndex e1"] by (simp add: leadsTo_def ea)
  let ?I1 = "if IsTargetInterior e0 then INC[GetTargetNodeIndex e0 := int (2 * i)] else INC"
  let ?I2 = "if IsTargetInterior e1 then ?I1[GetTargetNodeIndex e1 := int (2 * i + 1)] else ?I1"
  have s1: "recordParent (2 * i) (0, e0) INC = Some ?I1"
    using t0 len cast(1) by (simp add: recordParent_def)
  have s2: "recordParent (2 * i) (1, e1) ?I1 = Some ?I2"
    using t1 len cast(2) by (simp add: recordParent_def)
  have "foldM (recordParent (2 * i)) [(0, e0), (1, e1)] INC = Some ?I2"
    unfolding foldM.simps s1 by (simp only: Option.bind.simps s2)
  moreover have "length ?I2 = length INC" by simp
  moreover have "\<forall>c<?K. ?I2 ! c = (if leadsTo f i 1 c then int (2 * i + 1)
                         else if leadsTo f i 0 c then int (2 * i) else INC ! c)"
    using len by (auto simp: leadsTo_def ea nth_list_update)
  ultimately show ?thesis unfolding z by blast
qed

text \<open>
  What Phase B has built for the interior node \<open>j\<close>: \<open>SI\<close> is \<^verbatim>\<open>interiorNodeSplitIndicators\<close>
  and \<open>EI\<close> is \<^verbatim>\<open>edgeIndicatorSubModels\<close>.
\<close>

definition nodeB_ok ::
  "('sr \<Rightarrow> real list \<Rightarrow> bool) \<Rightarrow> ('sr, 'ep) ForestPredictor \<Rightarrow> real list \<Rightarrow>
   ('sr, 'ep) ModelTransformer \<Rightarrow> env \<Rightarrow> PortElements list \<Rightarrow> PortElements list \<Rightarrow> nat \<Rightarrow> bool" where
  "nodeB_ok sp f x t env SI EI j \<longleftrightarrow>
     (\<not> hasParent f j \<longrightarrow>
        (\<exists>nid. nid < length (model t) \<and>
           model t ! nid = UnaryOperationNode_logicalNot (SI ! j) \<and>
           EI ! (2 * j) = [(nid, 0, 0)] \<and> EI ! Suc (2 * j) = SI ! j)) \<and>
     (\<forall>p q. p < length (GetInteriorNodes f) \<and> q < 2 \<and> leadsTo f p q j \<longrightarrow>
        (\<exists>mid. mid < length (model t) \<and>
           model t ! mid = MultiplexorNode (EI ! (2 * p + q)) (SI ! j) 2 \<and>
           EI ! (2 * j) = [(mid, 0, 0)] \<and> EI ! Suc (2 * j) = [(mid, 0, 1)])) \<and>
     eval_pe env (EI ! (2 * j)) = Some [B (edgeIndicatorOf sp f x (2 * j))] \<and>
     eval_pe env (EI ! Suc (2 * j)) = Some [B (edgeIndicatorOf sp f x (Suc (2 * j)))]"

lemma nodeB_ok_step:
  assumes wf: "wf_forest f" and j: "j < length (GetInteriorNodes f)"
    and ok: "nodeB_ok sp f x t env SI EI j" and ext: "extends t env t' env'"
    and same: "\<And>k. k < 2 * Suc j \<Longrightarrow> EI' ! k = EI ! k"
  shows "nodeB_ok sp f x t' env' SI EI' j"
proof -
  have p: "prefix env env'" using ext by (simp add: extends_def)
  have lk: "\<And>n. n < length (model t) \<Longrightarrow> n < length (model t') \<and> model t' ! n = model t ! n"
    using extends_node[OF ext] extends_length[OF ext] by auto
  have e0: "EI' ! (2 * j) = EI ! (2 * j)" and e1: "EI' ! Suc (2 * j) = EI ! Suc (2 * j)"
    using same by simp_all
  have par: "\<And>p q. p < length (GetInteriorNodes f) \<Longrightarrow> q < 2 \<Longrightarrow> leadsTo f p q j \<Longrightarrow>
      EI' ! (2 * p + q) = EI ! (2 * p + q)"
  proof -
    fix p q assume a: "p < length (GetInteriorNodes f)" "q < 2" "leadsTo f p q j"
    from wf_target[OF wf a] have "p < j" by simp
    with a(2) have "2 * p + q < 2 * Suc j" by simp
    then show "EI' ! (2 * p + q) = EI ! (2 * p + q)" by (rule same)
  qed
  from ok have a: "\<not> hasParent f j \<longrightarrow>
        (\<exists>nid. nid < length (model t) \<and>
           model t ! nid = UnaryOperationNode_logicalNot (SI ! j) \<and>
           EI ! (2 * j) = [(nid, 0, 0)] \<and> EI ! Suc (2 * j) = SI ! j)"
    and b: "\<forall>p q. p < length (GetInteriorNodes f) \<and> q < 2 \<and> leadsTo f p q j \<longrightarrow>
        (\<exists>mid. mid < length (model t) \<and>
           model t ! mid = MultiplexorNode (EI ! (2 * p + q)) (SI ! j) 2 \<and>
           EI ! (2 * j) = [(mid, 0, 0)] \<and> EI ! Suc (2 * j) = [(mid, 0, 1)])"
    and c: "eval_pe env (EI ! (2 * j)) = Some [B (edgeIndicatorOf sp f x (2 * j))]"
    and d: "eval_pe env (EI ! Suc (2 * j)) = Some [B (edgeIndicatorOf sp f x (Suc (2 * j)))]"
    unfolding nodeB_ok_def by blast+
  have a': "\<not> hasParent f j \<longrightarrow>
        (\<exists>nid. nid < length (model t') \<and>
           model t' ! nid = UnaryOperationNode_logicalNot (SI ! j) \<and>
           EI' ! (2 * j) = [(nid, 0, 0)] \<and> EI' ! Suc (2 * j) = SI ! j)"
    using a lk unfolding e0 e1 by metis
  have b': "\<forall>p q. p < length (GetInteriorNodes f) \<and> q < 2 \<and> leadsTo f p q j \<longrightarrow>
        (\<exists>mid. mid < length (model t') \<and>
           model t' ! mid = MultiplexorNode (EI' ! (2 * p + q)) (SI ! j) 2 \<and>
           EI' ! (2 * j) = [(mid, 0, 0)] \<and> EI' ! Suc (2 * j) = [(mid, 0, 1)])"
  proof (intro allI impI)
    fix p q assume pq: "p < length (GetInteriorNodes f) \<and> q < 2 \<and> leadsTo f p q j"
    with b obtain mid where "mid < length (model t)"
      "model t ! mid = MultiplexorNode (EI ! (2 * p + q)) (SI ! j) 2"
      "EI ! (2 * j) = [(mid, 0, 0)]" "EI ! Suc (2 * j) = [(mid, 0, 1)]" by blast
    with lk[of mid] par[of p q] pq e0 e1
    show "\<exists>mid. mid < length (model t') \<and>
           model t' ! mid = MultiplexorNode (EI' ! (2 * p + q)) (SI ! j) 2 \<and>
           EI' ! (2 * j) = [(mid, 0, 0)] \<and> EI' ! Suc (2 * j) = [(mid, 0, 1)]" by auto
  qed
  show ?thesis
    unfolding nodeB_ok_def e0 e1
    using a' b' eval_pe_prefix[OF c p] eval_pe_prefix[OF d p] unfolding e0 e1 by blast
qed

definition invB_with ::
  "(real \<Rightarrow> real \<Rightarrow> real) \<Rightarrow> ('sr \<Rightarrow> real list \<Rightarrow> bool) \<Rightarrow> ('ep \<Rightarrow> real list \<Rightarrow> real) \<Rightarrow>
   ('sr, 'ep) ForestPredictor \<Rightarrow> real list \<Rightarrow> PortElements list \<Rightarrow> ('sr, 'ep) ModelTransformer \<Rightarrow> env \<Rightarrow> nat \<Rightarrow>
   ('sr, 'ep) stateB \<Rightarrow> bool" where
  "invB_with add sp epf f x SI tA envA i s \<longleftrightarrow>
     (case s of (t, EI, INC) \<Rightarrow>
        \<exists>env. evaluates_with add sp epf t env \<and> extends tA envA t env \<and>
          length EI = NumEdges f \<and> length INC = length (GetInteriorNodes f) \<and>
          (\<forall>c<length (GetInteriorNodes f).
             (\<forall>p q. p < i \<and> q < 2 \<and> leadsTo f p q c \<longrightarrow> INC ! c = int (2 * p + q)) \<and>
             ((\<forall>p q. p < i \<and> q < 2 \<longrightarrow> \<not> leadsTo f p q c) \<longrightarrow> INC ! c = - 1)) \<and>
          (\<forall>j<i. nodeB_ok sp f x t env SI EI j))"

abbreviation invB ::
  "('sr \<Rightarrow> real list \<Rightarrow> bool) \<Rightarrow> ('ep \<Rightarrow> real list \<Rightarrow> real) \<Rightarrow> ('sr, 'ep) ForestPredictor \<Rightarrow>
   real list \<Rightarrow> PortElements list \<Rightarrow> ('sr, 'ep) ModelTransformer \<Rightarrow> env \<Rightarrow> nat \<Rightarrow>
   ('sr, 'ep) stateB \<Rightarrow> bool" where
  "invB \<equiv> invB_with (+)"

lemma phaseB_body_step:
  fixes tA :: "('sr, 'ep) ModelTransformer"
  assumes wf: "wf_forest f" and i: "i < length (GetInteriorNodes f)"
    and lSI: "length SI = length (GetInteriorNodes f)"
    and SIok: "\<And>j. j < length (GetInteriorNodes f) \<Longrightarrow>
                 eval_pe envA (SI ! j) = Some [B (splitOf sp f x j)]"
    and inv: "invB_with add sp epf f x SI tA envA i s"
  shows "\<exists>s'. phaseB_body f SI i s = Some s' \<and> invB_with add sp epf f x SI tA envA (Suc i) s'"
proof -
  let ?K = "length (GetInteriorNodes f)"
  obtain t EI INC where s: "s = (t, EI, INC)" by (cases s)
  from inv s obtain env where ev: "evaluates_with add sp epf t env" and ext: "extends tA envA t env"
    and lEI: "length EI = NumEdges f" and lINC: "length INC = ?K"
    and inc: "\<And>c. c < ?K \<Longrightarrow>
             (\<forall>p q. p < i \<and> q < 2 \<and> leadsTo f p q c \<longrightarrow> INC ! c = int (2 * p + q)) \<and>
             ((\<forall>p q. p < i \<and> q < 2 \<longrightarrow> \<not> leadsTo f p q c) \<longrightarrow> INC ! c = - 1)"
    and ok: "\<And>j. j < i \<Longrightarrow> nodeB_ok sp f x t env SI EI j"
    unfolding invB_with_def by auto
  have pA: "prefix envA env" using ext by (simp add: extends_def)
  have sel: "eval_pe env (SI ! i) = Some [B (splitOf sp f x i)]"
    using eval_pe_prefix[OF SIok[OF i] pA] .
  have inc1: "\<forall>p q. p < i \<and> q < 2 \<and> leadsTo f p q i \<longrightarrow> INC ! i = int (2 * p + q)"
    using inc[OF i] by blast
  have inc2: "(\<forall>p q. p < i \<and> q < 2 \<longrightarrow> \<not> leadsTo f p q i) \<longrightarrow> INC ! i = - 1"
    using inc[OF i] by blast
  have prev: "\<forall>p q. p < i \<and> q < 2 \<longrightarrow>
                 eval_pe env (EI ! (2 * p + q)) = Some [B (edgeIndicatorOf sp f x (2 * p + q))]"
  proof (intro allI impI)
    fix p q :: nat assume pq: "p < i \<and> q < 2"
    then have "q = 0 \<or> q = 1" by auto
    with ok[of p] pq show "eval_pe env (EI ! (2 * p + q)) = Some [B (edgeIndicatorOf sp f x (2 * p + q))]"
      by (auto simp: nodeB_ok_def)
  qed
  from childIndicators_spec[OF wf i ev sel lEI inc1 inc2 prev]
  obtain t1 env1 c1 c2 where ci: "childIndicators EI (INC ! i) (SI ! i) t = Some (t1, c1, c2)"
    and ev1: "evaluates_with add sp epf t1 env1" and ext1: "extends t env t1 env1"
    and v1: "eval_pe env1 c1 = Some [B (edgeIndicatorOf sp f x (2 * i))]"
    and v2: "eval_pe env1 c2 = Some [B (edgeIndicatorOf sp f x (Suc (2 * i)))]"
    and root: "\<not> hasParent f i \<longrightarrow>
              (\<exists>nid. nid < length (model t1) \<and>
                 model t1 ! nid = UnaryOperationNode_logicalNot (SI ! i) \<and>
                 c1 = [(nid, 0, 0)] \<and> c2 = SI ! i)"
    and child: "\<forall>p q. p < ?K \<and> q < 2 \<and> leadsTo f p q i \<longrightarrow>
              (\<exists>mid. mid < length (model t1) \<and>
                 model t1 ! mid = MultiplexorNode (EI ! (2 * p + q)) (SI ! i) 2 \<and>
                 c1 = [(mid, 0, 0)] \<and> c2 = [(mid, 0, 1)])"
    by (elim exE conjE) (rule that, assumption+)
  from recordParent_fold[OF wf i lINC]
  obtain INC' where rp: "foldM (recordParent (2 * i))
             (zip [0..<length (GetOutgoingEdges (GetInteriorNodes f ! i))]
                  (GetOutgoingEdges (GetInteriorNodes f ! i))) INC = Some INC'"
    and lINC': "length INC' = length INC"
    and INC': "\<And>c. c < ?K \<Longrightarrow>
              INC' ! c = (if leadsTo f i 1 c then int (2 * i + 1)
                         else if leadsTo f i 0 c then int (2 * i) else INC ! c)"
    by blast
  let ?EI' = "EI[2 * i := c1, Suc (2 * i) := c2]"
  have inr: "Suc (2 * i) < length EI" using lEI wf_numEdges[OF wf] i by simp
  have body: "phaseB_body f SI i s = Some (t1, ?EI', INC')"
    using i lINC lSI ci inr rp
    by (simp add: phaseB_body_def s wf_firstEdge[OF wf i] Let_def)
  have incS: "\<forall>c<?K.
             (\<forall>p q. p < Suc i \<and> q < 2 \<and> leadsTo f p q c \<longrightarrow> INC' ! c = int (2 * p + q)) \<and>
             ((\<forall>p q. p < Suc i \<and> q < 2 \<longrightarrow> \<not> leadsTo f p q c) \<longrightarrow> INC' ! c = - 1)"
  proof (intro allI impI conjI)
    fix c p q assume c: "c < ?K" and pq: "p < Suc i \<and> q < 2 \<and> leadsTo f p q c"
    then have p: "p < ?K" using i by simp
    have u: "\<And>q'. q' < 2 \<Longrightarrow> leadsTo f i q' c \<Longrightarrow> i = p \<and> q' = q"
      using wf_unique[OF wf i _ _ p] pq by blast
    show "INC' ! c = int (2 * p + q)"
    proof (cases "p = i")
      case True
      from pq have "q = 0 \<or> q = 1" by auto
      then show ?thesis
      proof
        assume q0: "q = 0"
        then have "\<not> leadsTo f i 1 c" using u[of 1] by auto
        then show ?thesis using INC'[OF c] pq True q0 by simp
      next
        assume "q = 1"
        then show ?thesis using INC'[OF c] pq True by simp
      qed
    next
      case False
      then have "\<not> leadsTo f i 1 c" "\<not> leadsTo f i 0 c" using u[of 1] u[of 0] by auto
      moreover have "p < i" using False pq by simp
      ultimately show ?thesis using INC'[OF c] inc[OF c] pq by auto
    qed
  next
    fix c assume c: "c < ?K" and no: "\<forall>p q. p < Suc i \<and> q < 2 \<longrightarrow> \<not> leadsTo f p q c"
    then have "\<not> leadsTo f i 1 c" "\<not> leadsTo f i 0 c" by auto
    moreover have "\<forall>p q. p < i \<and> q < 2 \<longrightarrow> \<not> leadsTo f p q c" using no by auto
    ultimately show "INC' ! c = - 1" using INC'[OF c] inc[OF c] by simp
  qed
  have okS: "\<forall>j<Suc i. nodeB_ok sp f x t1 env1 SI ?EI' j"
  proof (intro allI impI)
    fix j assume j: "j < Suc i"
    show "nodeB_ok sp f x t1 env1 SI ?EI' j"
    proof (cases "j = i")
      case False
      with j have ji: "j < i" by simp
      then have jK: "j < ?K" using i by simp
      have "\<And>k. k < 2 * Suc j \<Longrightarrow> ?EI' ! k = EI ! k" using ji by simp
      from nodeB_ok_step[OF wf jK ok[OF ji] ext1 this] show ?thesis .
    next
      case True
      have e0: "?EI' ! (2 * i) = c1" and e1: "?EI' ! Suc (2 * i) = c2" using inr by simp_all
      have par: "\<And>p q. p < ?K \<and> q < 2 \<and> leadsTo f p q i \<Longrightarrow> ?EI' ! (2 * p + q) = EI ! (2 * p + q)"
      proof -
        fix p q assume a: "p < ?K \<and> q < 2 \<and> leadsTo f p q i"
        with wf_target[OF wf, of p q i] have "p < i" by simp
        with a show "?EI' ! (2 * p + q) = EI ! (2 * p + q)" by simp
      qed
      show ?thesis
        unfolding True nodeB_ok_def e0 e1
        using root child v1 v2 par by auto
    qed
  qed
  have "invB_with add sp epf f x SI tA envA (Suc i) (t1, ?EI', INC')"
    unfolding invB_with_def
    using ev1 extends_trans[OF ext ext1] lEI lINC lINC' incS okS by auto
  with body show ?thesis by blast
qed


text \<open>The state in which the iteration of Phase B for node \<open>i\<close> starts.\<close>

definition phaseB_before ::
  "('sr, 'ep) ForestPredictor \<Rightarrow> PortElements list \<Rightarrow> ('sr, 'ep) ModelTransformer \<Rightarrow> nat \<Rightarrow> ('sr, 'ep) stateB option" where
  "phaseB_before f interiorNodeSplitIndicators t i =
     phaseB_loop f interiorNodeSplitIndicators i
       (t, replicate (NumEdges f) [], replicate (length (GetInteriorNodes f)) (- 1))"

lemma phaseB_through:
  "i \<le> length (GetInteriorNodes f) \<Longrightarrow>
   phaseB f SI t = Option.bind (phaseB_before f SI t i)
                     (foldM (phaseB_body f SI) [i..<length (GetInteriorNodes f)])"
proof -
  assume "i \<le> length (GetInteriorNodes f)"
  then have "[0..<length (GetInteriorNodes f)] = [0..<i] @ [i..<length (GetInteriorNodes f)]"
    by (metis le0 upt_add_eq_append le_add_diff_inverse)
  then show ?thesis
    by (simp only: phaseB_def phaseB_before_def phaseB_loop_def Let_def foldM_append)
qed

lemma invB_init:
  assumes "evaluates_with add sp epf tA envA"
  shows "invB_with add sp epf f x SI tA envA 0
           (tA, replicate (NumEdges f) [], replicate (length (GetInteriorNodes f)) (- 1))"
  using assms by (auto simp: invB_with_def)

lemma phaseB_before_inv:
  fixes tA :: "('sr, 'ep) ModelTransformer"
  assumes wf: "wf_forest f" and ev: "evaluates_with add sp epf tA envA"
    and lSI: "length SI = length (GetInteriorNodes f)"
    and SIok: "\<And>j. j < length (GetInteriorNodes f) \<Longrightarrow>
                 eval_pe envA (SI ! j) = Some [B (splitOf sp f x j)]"
    and i: "i \<le> length (GetInteriorNodes f)"
  shows "\<exists>s. phaseB_before f SI tA i = Some s \<and> invB_with add sp epf f x SI tA envA i s"
  using foldM_up[where I="invB_with add sp epf f x SI tA envA" and body="phaseB_body f SI",
      OF phaseB_body_step[OF wf _ lSI SIok] invB_init[OF ev] i]
  by (simp add: phaseB_before_def phaseB_loop_def)

lemma phaseB_inv:
  fixes tA :: "('sr, 'ep) ModelTransformer"
  assumes wf: "wf_forest f" and ev: "evaluates_with add sp epf tA envA"
    and lSI: "length SI = length (GetInteriorNodes f)"
    and SIok: "\<And>j. j < length (GetInteriorNodes f) \<Longrightarrow>
                 eval_pe envA (SI ! j) = Some [B (splitOf sp f x j)]"
  shows "\<exists>s. phaseB f SI tA = Some s \<and> invB_with add sp epf f x SI tA envA (length (GetInteriorNodes f)) s"
  using phaseB_before_inv[OF wf ev lSI SIok le_refl]
  by (simp add: phaseB_before_def phaseB_def Let_def)

section \<open>Phase C\<close>

lemma appendTree_simp:
  "appendTree SM r acc = (if r < length SM then Some (acc @ SM ! r) else None)"
  by (simp add: appendTree_def)

lemma foldM_appendTree:
  "\<forall>r\<in>set rs. r < length SM \<Longrightarrow>
   foldM (appendTree SM) rs acc = Some (acc @ concat (map ((!) SM) rs))"
proof (induction rs arbitrary: acc)
  case Nil
  then show ?case by simp
next
  case (Cons r rs)
  then have st: "appendTree SM r acc = Some (acc @ SM ! r)" by (simp add: appendTree_simp)
  from Cons have "foldM (appendTree SM) rs (acc @ SM ! r) = Some ((acc @ SM ! r) @ concat (map ((!) SM) rs))"
    by simp
  then show ?case unfolding foldM.simps st by simp
qed

lemma foldM_appendTree_Some:
  "foldM (appendTree SM) rs acc = Some ts \<Longrightarrow>
   (\<forall>r\<in>set rs. r < length SM) \<and> ts = acc @ concat (map ((!) SM) rs)"
proof (induction rs arbitrary: acc)
  case Nil
  then show ?case by simp
next
  case (Cons r rs)
  from Cons.prems have r: "r < length SM"
    unfolding foldM.simps by (cases "r < length SM") (simp_all add: appendTree_simp)
  then have st: "appendTree SM r acc = Some (acc @ SM ! r)" by (simp add: appendTree_simp)
  from Cons.prems have "foldM (appendTree SM) rs (acc @ SM ! r) = Some ts"
    unfolding foldM.simps st by (simp only: Option.bind.simps)
  from Cons.IH[OF this] r show ?case by simp
qed

text \<open>The transformer that Phase C leaves, written out.\<close>

definition assembled ::
  "nat \<Rightarrow> ('sr, 'ep) ForestPredictor \<Rightarrow> PortElements \<Rightarrow> PortElements \<Rightarrow>
   ('sr, 'ep) ModelTransformer \<Rightarrow> ('sr, 'ep) ModelTransformer" where
  "assembled self f trees indicators t =
     t\<lparr>model := model t @
          [ConstantNode [GetBias f], SumNode (trees @ [(length (model t), 0, 0)])],
       outputMap := outputMap t @
          [((self, Port_output), [(Suc (length (model t)), 0, 0)]),
           ((self, Port_treeOutputs), trees),
           ((self, Port_edgeIndicatorVector), indicators)]\<rparr>"

lemma phaseC_eq:
  "phaseC self f SM EI t =
     map_option (\<lambda>trees. assembled self f trees (concat EI) t)
       (foldM (appendTree SM) (GetRootIndices f) [])"
  by (cases "foldM (appendTree SM) (GetRootIndices f) []")
     (simp_all add: phaseC_def assembled_def AddNode_def MapNodeOutput_def OutputPort_def Let_def)

lemma foldl_plus_real: "foldl (+) (a :: real) xs = a + sum_list xs"
  by (rule foldl_plus_sum_list)

lemma eval_pe_concat_map:
  "\<forall>r\<in>set rs. eval_pe env (h r) = Some [g r] \<Longrightarrow>
   eval_pe env (concat (map h rs)) = Some (map g rs)"
proof (induction rs)
  case Nil
  then show ?case by simp
next
  case (Cons r rs)
  then have a: "eval_pe env (h r) = Some [g r]" and b: "eval_pe env (concat (map h rs)) = Some (map g rs)"
    by simp_all
  from eval_pe_append[OF a b] show ?case by simp
qed

lemma assembled_with_evaluates:
  fixes t :: "('sr, 'ep) ModelTransformer"
  assumes ev: "evaluates_with add sp epf t env"
    and trees: "eval_pe env trees = Some (map D tvs)"
  shows "evaluates_with add sp epf (assembled self f trees indicators t)
           (env @ [[[D (GetBias f)]], [[D (add (foldl add 0 tvs) (GetBias f))]]])"
proof -
  let ?n1 = "ConstantNode [GetBias f] :: ('sr, 'ep) Node"
  let ?env1 = "env @ [[[D (GetBias f)]]]"
  let ?n2 = "SumNode (trees @ [(length (model t), 0, 0)]) :: ('sr, 'ep) Node"
  have l: "length env = length (model t)" using evaluates_length[OF ev] .
  have c1: "ComputeNode_with add sp epf env ?n1 = Some [[D (GetBias f)]]" by simp
  have "eval_pe ?env1 [(length (model t), 0, 0)] = Some [D (GetBias f)]"
    using eval_pe_new_elem[of 0 "[D (GetBias f)]" env] by (simp add: l)
  from eval_pe_append[OF eval_pe_mono[OF trees] this]
  have "eval_pe ?env1 (trees @ [(length (model t), 0, 0)]) = Some (map D (tvs @ [GetBias f]))"
    by simp
  then have "read_doubles ?env1 (trees @ [(length (model t), 0, 0)]) = Some (tvs @ [GetBias f])"
    by (rule read_doubles_eval)
  then have c2: "ComputeNode_with add sp epf ?env1 ?n2 =
      Some [[D (add (foldl add 0 tvs) (GetBias f))]]"
    by simp
  have "run_with add sp epf env [?n1, ?n2] =
        Some (env @ [[[D (GetBias f)]], [[D (add (foldl add 0 tvs) (GetBias f))]]])"
    unfolding run_with.simps c1 by (simp add: c2 del: ComputeNode_with.simps)
  then have "run_with add sp epf [] (model t @ [?n1, ?n2]) =
        Some (env @ [[[D (GetBias f)]], [[D (add (foldl add 0 tvs) (GetBias f))]]])"
    using ev unfolding run_append evaluates_with_def EvaluateModel_with_def by (simp del: run_with.simps)
  then show ?thesis by (simp add: evaluates_with_def EvaluateModel_with_def assembled_def)
qed

lemma assembled_evaluates:
  fixes t :: "('sr, 'ep) ModelTransformer"
  assumes ev: "evaluates sp epf t env"
    and trees: "eval_pe env trees = Some (map D tvs)"
  shows "evaluates sp epf (assembled self f trees indicators t)
           (env @ [[[D (GetBias f)]], [[D (foldl (+) (GetBias f) tvs)]]])"
  using assembled_with_evaluates[OF assms, of self f indicators]
  by (simp add: foldl_plus_real add.commute)


section \<open>The refined model\<close>

lemma RefineNode_phases:
  fixes t0 :: "('sr, 'ep) ModelTransformer"
  assumes wf: "wf_forest f" and ev: "evaluates_with add sp epf t0 env0"
    and inp: "read_doubles env0 inp = Some x"
  shows "\<exists>tA SI SM envA tB EI INC envB.
     phaseA f inp t0 = Some (tA, SI, SM) \<and> evaluates_with add sp epf tA envA \<and> extends t0 env0 tA envA \<and>
     length SI = length (GetInteriorNodes f) \<and> length SM = length (GetInteriorNodes f) \<and>
     (\<forall>j<length (GetInteriorNodes f). nodeA_ok_with add sp epf f inp x tA envA j (SI ! j) (SM ! j)) \<and>
     phaseB f SI tA = Some (tB, EI, INC) \<and> evaluates_with add sp epf tB envB \<and> extends tA envA tB envB \<and>
     length EI = NumEdges f \<and>
     (\<forall>j<length (GetInteriorNodes f). nodeB_ok sp f x tB envB SI EI j) \<and>
     RefineNode self f inp t0 =
       Some (assembled self f (concat (map ((!) SM) (GetRootIndices f))) (concat EI) tB)"
proof -
  let ?K = "length (GetInteriorNodes f)"
  from phaseA_inv[OF wf ev inp] obtain sA where
    pA: "phaseA f inp t0 = Some sA" and iA: "invA_with add sp epf f inp x t0 env0 0 sA" by blast
  obtain tA SI SM where sA: "sA = (tA, SI, SM)" by (cases sA)
  from iA sA obtain envA where evA: "evaluates_with add sp epf tA envA" and extA: "extends t0 env0 tA envA"
    and lSI: "length SI = ?K" and lSM: "length SM = ?K"
    and okA: "\<forall>j<?K. nodeA_ok_with add sp epf f inp x tA envA j (SI ! j) (SM ! j)"
    unfolding invA_with_def by auto
  have SIok: "\<And>j. j < ?K \<Longrightarrow> eval_pe envA (SI ! j) = Some [B (splitOf sp f x j)]"
    using okA by (simp add: nodeA_ok_with_def)
  from phaseB_inv[OF wf evA lSI SIok] obtain sB where
    pB: "phaseB f SI tA = Some sB" and iB: "invB_with add sp epf f x SI tA envA ?K sB" by blast
  obtain tB EI INC where sB: "sB = (tB, EI, INC)" by (cases sB)
  from iB sB obtain envB where evB: "evaluates_with add sp epf tB envB" and extB: "extends tA envA tB envB"
    and lEI: "length EI = NumEdges f"
    and okB: "\<forall>j<?K. nodeB_ok sp f x tB envB SI EI j"
    unfolding invB_with_def by auto
  have "\<forall>r\<in>set (GetRootIndices f). r < length SM" using wf_root[OF wf] lSM by simp
  from foldM_appendTree[OF this, of "[]"]
  have "phaseC self f SM EI tB =
        Some (assembled self f (concat (map ((!) SM) (GetRootIndices f))) (concat EI) tB)"
    by (simp add: phaseC_eq)
  then have "RefineNode self f inp t0 =
        Some (assembled self f (concat (map ((!) SM) (GetRootIndices f))) (concat EI) tB)"
    by (simp add: RefineNode_def pA sA pB sB)
  with pA sA evA extA lSI lSM okA pB sB evB extB lEI okB show ?thesis by blast
qed

lemma edge_indicators_eval:
  assumes wf: "wf_forest f" and lEI: "length EI = NumEdges f"
    and okB: "\<forall>j<length (GetInteriorNodes f). nodeB_ok sp f x tB envB SI EI j"
  shows "eval_pe envB (concat EI) = Some (map B (map (edgeIndicatorOf sp f x) [0..<NumEdges f]))"
proof -
  have "\<forall>k<length EI. eval_pe envB (EI ! k) = Some [B (edgeIndicatorOf sp f x k)]"
  proof (intro allI impI)
    fix k assume "k < length EI"
    then have j: "k div 2 < length (GetInteriorNodes f)" using lEI wf_numEdges[OF wf] by simp
    have "k = 2 * (k div 2) \<or> k = Suc (2 * (k div 2))" by presburger
    then show "eval_pe envB (EI ! k) = Some [B (edgeIndicatorOf sp f x k)]"
    proof
      assume e: "k = 2 * (k div 2)"
      from okB j have "eval_pe envB (EI ! (2 * (k div 2))) =
          Some [B (edgeIndicatorOf sp f x (2 * (k div 2)))]" by (simp add: nodeB_ok_def)
      with e show ?thesis by simp
    next
      assume e: "k = Suc (2 * (k div 2))"
      from okB j have "eval_pe envB (EI ! Suc (2 * (k div 2))) =
          Some [B (edgeIndicatorOf sp f x (Suc (2 * (k div 2))))]" by (simp add: nodeB_ok_def)
      with e show ?thesis by simp
    qed
  qed
  from eval_pe_concat[OF this] show ?thesis by (simp add: lEI)
qed

lemma RefineNode_with_evaluates:
  fixes t0 :: "('sr, 'ep) ModelTransformer"
  assumes wf: "wf_forest f" and ev: "evaluates_with add sp epf t0 env0"
    and inp: "read_doubles env0 inp = Some x"
  shows "\<exists>t env out trees ind.
     RefineNode self f inp t0 = Some t \<and> evaluates_with add sp epf t env \<and>
     outputMap t = outputMap t0 @
       [((self, Port_output), out), ((self, Port_treeOutputs), trees),
        ((self, Port_edgeIndicatorVector), ind)] \<and>
     eval_pe env out =
       Some [D (add (foldl add 0 (map (nodeValue add sp epf f x) (GetRootIndices f))) (GetBias f))] \<and>
     eval_pe env trees = Some (map D (map (nodeValue add sp epf f x) (GetRootIndices f))) \<and>
     eval_pe env ind = Some (map B (map (edgeIndicatorOf sp f x) [0..<NumEdges f]))"
proof -
  let ?K = "length (GetInteriorNodes f)"
  from RefineNode_phases[OF wf ev inp, of self]
  obtain tA SI SM envA tB EI and INC :: "int list" and envB where
    evA: "evaluates_with add sp epf tA envA" and extA: "extends t0 env0 tA envA"
    and lSM: "length SM = ?K"
    and okA: "\<forall>j<?K. nodeA_ok_with add sp epf f inp x tA envA j (SI ! j) (SM ! j)"
    and evB: "evaluates_with add sp epf tB envB" and extB: "extends tA envA tB envB"
    and lEI: "length EI = NumEdges f"
    and okB: "\<forall>j<?K. nodeB_ok sp f x tB envB SI EI j"
    and rn: "RefineNode self f inp t0 =
       Some (assembled self f (concat (map ((!) SM) (GetRootIndices f))) (concat EI) tB)"
    by blast
  let ?trees = "concat (map ((!) SM) (GetRootIndices f))"
  let ?tvs = "map (nodeValue add sp epf f x) (GetRootIndices f)"
  let ?t = "assembled self f ?trees (concat EI) tB"
  let ?total = "add (foldl add 0 ?tvs) (GetBias f)"
  let ?env = "envB @ [[[D (GetBias f)]], [[D ?total]]]"
  have pB: "prefix envA envB" using extB by (simp add: extends_def)
  have "\<forall>r\<in>set (GetRootIndices f). eval_pe envB (SM ! r) = Some [D (nodeValue add sp epf f x r)]"
  proof
    fix r assume "r \<in> set (GetRootIndices f)"
    with wf_root[OF wf] have "r < ?K" by blast
    with okA have "eval_pe envA (SM ! r) = Some [D (nodeValue add sp epf f x r)]"
      by (simp add: nodeA_ok_with_def)
    from eval_pe_prefix[OF this pB] show "eval_pe envB (SM ! r) = Some [D (nodeValue add sp epf f x r)]" .
  qed
  from eval_pe_concat_map[OF this]
  have trB: "eval_pe envB ?trees = Some (map D ?tvs)" by (simp add: comp_def)
  from assembled_with_evaluates[OF evB trB]
  have evt: "evaluates_with add sp epf ?t ?env" .
  have lB: "length envB = length (model tB)" using evaluates_length[OF evB] .
  have "eval_pe ((envB @ [[[D (GetBias f)]]]) @ [[[D ?total]]]) [(length (envB @ [[[D (GetBias f)]]]), 0, 0)]
        = Some [[D ?total] ! 0]"
    by (rule eval_pe_new_elem) simp
  then have vo: "eval_pe ?env [(Suc (length (model tB)), 0, 0)] = Some [D ?total]"
    by (simp add: lB)
  have vt: "eval_pe ?env ?trees = Some (map D ?tvs)" using eval_pe_mono[OF trB] .
  have vi: "eval_pe ?env (concat EI) = Some (map B (map (edgeIndicatorOf sp f x) [0..<NumEdges f]))"
    using eval_pe_mono[OF edge_indicators_eval[OF wf lEI okB]] .
  have om: "outputMap ?t = outputMap t0 @
       [((self, Port_output), [(Suc (length (model tB)), 0, 0)]), ((self, Port_treeOutputs), ?trees),
        ((self, Port_edgeIndicatorVector), concat EI)]"
    using extA extB by (simp add: assembled_def extends_def)
  from rn evt om vo vt vi show ?thesis by blast
qed

lemma RefineNode_evaluates:
  fixes t0 :: "('sr, 'ep) ModelTransformer"
  assumes wf: "wf_forest f" and ev: "evaluates sp epf t0 env0"
    and inp: "read_doubles env0 inp = Some x"
  shows "\<exists>t env out trees ind.
     RefineNode self f inp t0 = Some t \<and> evaluates sp epf t env \<and>
     outputMap t = outputMap t0 @
       [((self, Port_output), out), ((self, Port_treeOutputs), trees),
        ((self, Port_edgeIndicatorVector), ind)] \<and>
     eval_pe env out =
       Some [D (foldl (+) (GetBias f) (map (treeValue sp epf f x) (GetRootIndices f)))] \<and>
     eval_pe env trees = Some (map D (map (treeValue sp epf f x) (GetRootIndices f))) \<and>
     eval_pe env ind = Some (map B (map (edgeIndicatorOf sp f x) [0..<NumEdges f]))"
proof -
  have m: "map (nodeValue (+) sp epf f x) (GetRootIndices f) =
        map (treeValue sp epf f x) (GetRootIndices f)"
    using wf_root[OF wf] by (auto simp: nodeValue_exact[OF wf])
  have s: "foldl (+) 0 tvs + b = foldl (+) b tvs" for tvs and b :: real
    by (simp add: foldl_plus_real)
  from RefineNode_with_evaluates[OF wf ev inp, of self]
  obtain t env out trees ind where
    "RefineNode self f inp t0 = Some t" "evaluates sp epf t env"
    "outputMap t = outputMap t0 @
       [((self, Port_output), out), ((self, Port_treeOutputs), trees),
        ((self, Port_edgeIndicatorVector), ind)]"
    "eval_pe env out =
       Some [D (foldl (+) 0 (map (nodeValue (+) sp epf f x) (GetRootIndices f)) + GetBias f)]"
    "eval_pe env trees = Some (map D (map (nodeValue (+) sp epf f x) (GetRootIndices f)))"
    "eval_pe env ind = Some (map B (map (edgeIndicatorOf sp f x) [0..<NumEdges f]))"
    by blast
  then show ?thesis unfolding m s by blast
qed


section \<open>The same addends in another order\<close>








section \<open>The output table\<close>

lemma foldM_invariant:
  assumes "\<And>a s s'. P s \<Longrightarrow> body a s = Some s' \<Longrightarrow> P s'"
  shows "P s \<Longrightarrow> foldM body xs s = Some s' \<Longrightarrow> P s'"
proof (induction xs arbitrary: s)
  case Nil
  then show ?case by simp
next
  case (Cons a xs)
  from Cons.prems(2) obtain s1 where s1: "body a s = Some s1" "foldM body xs s1 = Some s'"
    by (cases "body a s") simp_all
  from Cons.IH[OF assms[OF Cons.prems(1) s1(1)] s1(2)] show ?case .
qed

lemma AddNode_outputMap [simp]: "outputMap (snd (AddNode t n)) = outputMap t"
  by (simp add: AddNode_def)

lemma edgeStep_outputMap:
  "edgeStep inp SM e s = Some s' \<Longrightarrow> outputMap (fst s') = outputMap (fst s)"
  by (cases s)
     (auto simp: edgeStep_def AddEdgePredictorToModelTransformer_def split_beta
           split: if_splits Option.bind_splits)

lemma phaseA_body_outputMap:
  assumes "phaseA_body f inp i s = Some s'"
  shows "outputMap (fst s') = outputMap (fst s)"
proof -
  obtain t SI SM where s: "s = (t, SI, SM)" by (cases s)
  from assms s obtain node t1 eo where
    loop: "foldM (edgeStep inp SM) (GetOutgoingEdges node) (t, []) = Some (t1, eo)"
    and t': "fst s' = snd (AddNode (snd (AddSplitRuleToModelTransformer inp (GetSplitRule node) t1))
               (ElementSelectorNode eo
                  (OutputPort (fst (AddSplitRuleToModelTransformer inp (GetSplitRule node) t1)) 0)))"
    by (auto simp: phaseA_body_def split_beta split: Option.bind_splits)
  have "outputMap (fst (t1, eo)) = outputMap t"
    by (rule foldM_invariant[where P="\<lambda>s. outputMap (fst s) = outputMap t"
          and body="edgeStep inp SM", OF _ _ loop])
       (simp_all add: edgeStep_outputMap)
  then show ?thesis by (simp add: t' s AddSplitRuleToModelTransformer_def)
qed

lemma phaseA_outputMap:
  assumes "phaseA f inp t = Some s'"
  shows "outputMap (fst s') = outputMap t"
  by (rule foldM_invariant[where P="\<lambda>s. outputMap (fst s) = outputMap t"
        and body="phaseA_body f inp", OF _ _ assms[unfolded phaseA_def phaseA_loop_def Let_def]])
     (simp_all add: phaseA_body_outputMap)

lemma childIndicators_outputMap:
  "childIndicators EI pei si t = Some r \<Longrightarrow> outputMap (fst r) = outputMap t"
  by (auto simp: childIndicators_def Let_def split_beta split: if_splits Option.bind_splits)

lemma phaseB_body_outputMap:
  assumes "phaseB_body f SI i s = Some s'"
  shows "outputMap (fst s') = outputMap (fst s)"
proof -
  obtain t EI INC where s: "s = (t, EI, INC)" by (cases s)
  from assms s obtain r where "childIndicators EI (INC ! i) (SI ! i) t = Some r" "fst s' = fst r"
    by (auto simp: phaseB_body_def split_beta Let_def vec_read_def split: Option.bind_splits if_splits)
  with childIndicators_outputMap[of EI "INC ! i" "SI ! i" t r] s show ?thesis by simp
qed

lemma phaseB_outputMap:
  assumes "phaseB f SI t = Some s'"
  shows "outputMap (fst s') = outputMap t"
  by (rule foldM_invariant[where P="\<lambda>s. outputMap (fst s) = outputMap t"
        and body="phaseB_body f SI", OF _ _ assms[unfolded phaseB_def phaseB_loop_def Let_def]])
     (simp_all add: phaseB_body_outputMap)

lemma RefineNode_Some:
  assumes "RefineNode self f inp t0 = Some t"
  shows "\<exists>tA SI SM tB EI INC.
     phaseA f inp t0 = Some (tA, SI, SM) \<and> phaseB f SI tA = Some (tB, EI, INC) \<and>
     (\<forall>r\<in>set (GetRootIndices f). r < length SM) \<and> outputMap tB = outputMap t0 \<and>
     t = assembled self f (concat (map ((!) SM) (GetRootIndices f))) (concat EI) tB"
proof -
  from assms obtain tA SI SM where pA: "phaseA f inp t0 = Some (tA, SI, SM)"
    by (cases "phaseA f inp t0") (auto simp: RefineNode_def)
  with assms obtain tB EI INC where pB: "phaseB f SI tA = Some (tB, EI, INC)"
    by (cases "phaseB f SI tA") (auto simp: RefineNode_def)
  with assms pA have "phaseC self f SM EI tB = Some t" by (simp add: RefineNode_def)
  then obtain trees where tr: "foldM (appendTree SM) (GetRootIndices f) [] = Some trees"
    "t = assembled self f trees (concat EI) tB"
    by (auto simp: phaseC_eq)
  from foldM_appendTree_Some[OF tr(1)] tr(2)
  have "(\<forall>r\<in>set (GetRootIndices f). r < length SM)"
    "t = assembled self f (concat (map ((!) SM) (GetRootIndices f))) (concat EI) tB" by simp_all
  moreover have "outputMap tB = outputMap t0"
    using phaseA_outputMap[OF pA] phaseB_outputMap[OF pB] by simp
  ultimately show ?thesis using pA pB by blast
qed


section \<open>An example forest\<close>

text \<open>
  Modelled from the spec: the split rules and edge predictors of the spec's example scenario,
  a threshold on one element of the input and a constant. The forest has two trees: node 0
  is a root whose edge 1 leads to node 1, node 2 is a root with two leaves.
\<close>

definition thresholdRule :: "nat \<times> real \<Rightarrow> real list \<Rightarrow> bool" where
  "thresholdRule r x = (snd r < x ! fst r)"

definition constantPredictor :: "real \<Rightarrow> real list \<Rightarrow> real" where
  "constantPredictor c x = c"

definition twoTreeForest :: "(nat \<times> real, real) ForestPredictor" where
  "twoTreeForest = ForestPredictor
     [InteriorNode (0, 0) [Edge (- 1) False 0, Edge 2 True 1] 0,
      InteriorNode (1, 1 / 2) [Edge 3 False 0, Edge 4 False 0] 2,
      InteriorNode (0, 5) [Edge 10 False 0, Edge 20 False 0] 4] [0, 2] (1 / 2) 6"

definition exampleTransformer :: "(nat \<times> real, real) ModelTransformer" where
  "exampleTransformer = \<lparr>model = [ConstantNode [1, 1]], outputMap = []\<rparr>"

definition exampleInput :: PortElements where
  "exampleInput = [(0, 0, 0), (0, 0, 1)]"

lemma less_two_cases: "(p :: nat) < 2 \<longleftrightarrow> p = 0 \<or> p = 1"
  by auto

lemma less_three_cases: "(i :: nat) < 3 \<longleftrightarrow> i = 0 \<or> i = 1 \<or> i = 2"
  by auto

lemma wf_twoTreeForest: "wf_forest twoTreeForest"
proof -
  have K: "length (GetInteriorNodes twoTreeForest) = 3" by (simp add: twoTreeForest_def)
  have l: "\<And>c. \<not> leadsTo twoTreeForest 0 0 c" "\<And>c. leadsTo twoTreeForest 0 1 c \<longleftrightarrow> c = 1"
    "\<And>c. \<not> leadsTo twoTreeForest 1 0 c" "\<And>c. \<not> leadsTo twoTreeForest 1 1 c"
    "\<And>c. \<not> leadsTo twoTreeForest 2 0 c" "\<And>c. \<not> leadsTo twoTreeForest 2 1 c"
    by (auto simp: leadsTo_def edgeAt_def twoTreeForest_def)
  have lt: "\<And>i p c. i < 3 \<Longrightarrow> p < 2 \<Longrightarrow> leadsTo twoTreeForest i p c \<longleftrightarrow> i = 0 \<and> p = 1 \<and> c = 1"
    using l by (auto simp: less_three_cases less_two_cases)
  have hp: "\<And>c. hasParent twoTreeForest c \<longleftrightarrow> c = 1"
  proof
    fix c assume "hasParent twoTreeForest c"
    then obtain i p where "i < 3" "p < 2" "leadsTo twoTreeForest i p c"
      unfolding hasParent_def K by blast
    with lt show "c = 1" by blast
  next
    fix c :: nat assume "c = 1"
    then have "(0 :: nat) < 3 \<and> (1 :: nat) < 2 \<and> leadsTo twoTreeForest 0 1 c" using l(2) by simp
    then show "hasParent twoTreeForest c" unfolding hasParent_def K by blast
  qed
  have "wf_edges twoTreeForest"
    unfolding wf_edges_def K by (auto simp: less_three_cases twoTreeForest_def)
  moreover have "wf_order twoTreeForest"
    unfolding wf_order_def K using lt by auto
  moreover have "wf_parents twoTreeForest"
    unfolding wf_parents_def K using lt by auto
  moreover have "wf_roots twoTreeForest"
    unfolding wf_roots_def K hp by (auto simp: twoTreeForest_def less_three_cases)
  ultimately show ?thesis by (simp add: wf_forest_def)
qed

lemma ev_example:
  "EvaluateModel thresholdRule constantPredictor (model exampleTransformer) = Some [[[D 1, D 1]]]"
  by (simp add: EvaluateModel_with_def exampleTransformer_def)

lemma inp_example: "read_doubles [[[D 1, D 1]]] exampleInput = Some [1, 1]"
  by (simp add: read_doubles_def eval_pe_def eval_elem_def exampleInput_def as_double_def)



definition refinedExample :: "(nat \<times> real, real) ModelTransformer" where
  "refinedExample =
     \<lparr>model =
        [ConstantNode [1, 1], EdgePredictorNode 10 [(0, 0, 0), (0, 0, 1)],
         EdgePredictorNode 20 [(0, 0, 0), (0, 0, 1)],
         SplitRuleNode (0, 5) [(0, 0, 0), (0, 0, 1)],
         ElementSelectorNode [(1, 0, 0), (2, 0, 0)] [(3, 0, 0)],
         EdgePredictorNode 3 [(0, 0, 0), (0, 0, 1)],
         EdgePredictorNode 4 [(0, 0, 0), (0, 0, 1)],
         SplitRuleNode (1, 1 / 2) [(0, 0, 0), (0, 0, 1)],
         ElementSelectorNode [(5, 0, 0), (6, 0, 0)] [(7, 0, 0)],
         EdgePredictorNode (- 1) [(0, 0, 0), (0, 0, 1)],
         EdgePredictorNode 2 [(0, 0, 0), (0, 0, 1)],
         BinaryOperationNode_add [(10, 0, 0)] [(8, 0, 0)],
         SplitRuleNode (0, 0) [(0, 0, 0), (0, 0, 1)],
         ElementSelectorNode [(9, 0, 0), (11, 0, 0)] [(12, 0, 0)],
         UnaryOperationNode_logicalNot [(12, 0, 0)],
         MultiplexorNode [(12, 0, 0)] [(7, 0, 0)] 2,
         UnaryOperationNode_logicalNot [(3, 0, 0)], ConstantNode [1 / 2],
         SumNode [(13, 0, 0), (4, 0, 0), (17, 0, 0)]],
      outputMap =
        [((7, Port_output), [(18, 0, 0)]),
         ((7, Port_treeOutputs), [(13, 0, 0), (4, 0, 0)]),
         ((7, Port_edgeIndicatorVector),
          [(14, 0, 0), (12, 0, 0), (15, 0, 0), (15, 0, 1), (16, 0, 0), (3, 0, 0)])]\<rparr>"

lemma refine_example:
  "RefineNode 7 twoTreeForest exampleInput exampleTransformer = Some refinedExample"
  by code_simp

section \<open>A forest whose sums round\<close>









section \<open>The claims\<close>




text \<open>
  C2. When RefineNode returns, the last two nodes of the refined model are a constant node
  holding the bias and one sum node whose input is the node values of the roots, in the
  order of the root indices, followed by the constant; the port \<^verbatim>\<open>output\<close> is mapped to the
  output of the sum node, and the port \<^verbatim>\<open>treeOutputs\<close> to the node values of the roots alone.
\<close>

theorem phaseC_sums_roots_and_bias:
  assumes "RefineNode self f inp t0 = Some t"
  shows "\<exists>tA SI SM tB EI INC.
     phaseA f inp t0 = Some (tA, SI, SM) \<and> phaseB f SI tA = Some (tB, EI, INC) \<and>
     model t = model tB @
       [ConstantNode [GetBias f],
        SumNode (concat (map ((!) SM) (GetRootIndices f)) @ [(length (model tB), 0, 0)])] \<and>
     outputMap t = outputMap t0 @
       [((self, Port_output), [(Suc (length (model tB)), 0, 0)]),
        ((self, Port_treeOutputs), concat (map ((!) SM) (GetRootIndices f))),
        ((self, Port_edgeIndicatorVector), concat EI)]"
proof -
  from RefineNode_Some[OF assms] obtain tA SI SM tB EI INC where
    a: "phaseA f inp t0 = Some (tA, SI, SM)" "phaseB f SI tA = Some (tB, EI, INC)"
    "outputMap tB = outputMap t0"
    "t = assembled self f (concat (map ((!) SM) (GetRootIndices f))) (concat EI) tB"
    by blast
  from a(3,4) have
    "model t = model tB @
       [ConstantNode [GetBias f],
        SumNode (concat (map ((!) SM) (GetRootIndices f)) @ [(length (model tB), 0, 0)])]"
    "outputMap t = outputMap t0 @
       [((self, Port_output), [(Suc (length (model tB)), 0, 0)]),
        ((self, Port_treeOutputs), concat (map ((!) SM) (GetRootIndices f))),
        ((self, Port_edgeIndicatorVector), concat EI)]"
    by (simp_all add: assembled_def)
  with a(1,2) show ?thesis by blast
qed

theorem phaseC_sums_roots_and_bias_witness:
  "RefineNode 7 twoTreeForest exampleInput exampleTransformer = Some refinedExample \<and>
   (\<exists>tA SI SM tB EI INC.
      phaseA twoTreeForest exampleInput exampleTransformer = Some (tA, SI, SM) \<and>
      phaseB twoTreeForest SI tA = Some (tB, EI, INC) \<and>
      model refinedExample = model tB @
        [ConstantNode [GetBias twoTreeForest],
         SumNode (concat (map ((!) SM) (GetRootIndices twoTreeForest)) @ [(length (model tB), 0, 0)])] \<and>
      outputMap refinedExample = outputMap exampleTransformer @
        [((7, Port_output), [(Suc (length (model tB)), 0, 0)]),
         ((7, Port_treeOutputs), concat (map ((!) SM) (GetRootIndices twoTreeForest))),
         ((7, Port_edgeIndicatorVector), concat EI)])"
  using phaseC_sums_roots_and_bias[OF refine_example] refine_example by blast

text \<open>
  C5. Copy registers exactly one PortElements for each of the three output ports of the
  node, after the entries the table had; so does RefineNode whenever it returns.
\<close>

theorem Copy_and_RefineNode_map_each_port_once:
  "(\<exists>a b c. outputMap (Copy self f inp t0) = outputMap t0 @
       [((self, Port_output), a), ((self, Port_treeOutputs), b),
        ((self, Port_edgeIndicatorVector), c)]) \<and>
   (\<forall>t. RefineNode self f inp t0 = Some t \<longrightarrow>
      (\<exists>a b c. outputMap t = outputMap t0 @
         [((self, Port_output), a), ((self, Port_treeOutputs), b),
          ((self, Port_edgeIndicatorVector), c)]))"
proof (intro conjI allI impI)
  show "\<exists>a b c. outputMap (Copy self f inp t0) = outputMap t0 @
       [((self, Port_output), a), ((self, Port_treeOutputs), b),
        ((self, Port_edgeIndicatorVector), c)]"
    by (simp add: Copy_def AddNode_def MapNodeOutput_def)
next
  fix t assume "RefineNode self f inp t0 = Some t"
  from RefineNode_Some[OF this] obtain SM tB EI where
    "outputMap tB = outputMap t0"
    "t = assembled self f (concat (map ((!) SM) (GetRootIndices f))) (concat EI) tB"
    by blast
  then show "\<exists>a b c. outputMap t = outputMap t0 @
         [((self, Port_output), a), ((self, Port_treeOutputs), b),
          ((self, Port_edgeIndicatorVector), c)]"
    by (simp add: assembled_def)
qed

theorem Copy_and_RefineNode_map_each_port_once_witness:
  "RefineNode 7 twoTreeForest exampleInput exampleTransformer = Some refinedExample \<and>
   map fst (outputMap refinedExample) =
     [(7, Port_output), (7, Port_treeOutputs), (7, Port_edgeIndicatorVector)] \<and>
   map fst (outputMap (Copy 7 twoTreeForest exampleInput exampleTransformer)) =
     [(7, Port_output), (7, Port_treeOutputs), (7, Port_edgeIndicatorVector)]"
proof -
  from Copy_and_RefineNode_map_each_port_once[of 7 twoTreeForest exampleInput exampleTransformer]
    refine_example
  obtain a b c a' b' c' where
    "outputMap (Copy 7 twoTreeForest exampleInput exampleTransformer) = outputMap exampleTransformer @
       [((7, Port_output), a), ((7, Port_treeOutputs), b), ((7, Port_edgeIndicatorVector), c)]"
    "outputMap refinedExample = outputMap exampleTransformer @
       [((7, Port_output), a'), ((7, Port_treeOutputs), b'), ((7, Port_edgeIndicatorVector), c')]"
    by blast
  then show ?thesis using refine_example by (simp add: exampleTransformer_def)
qed

text \<open>
  C6. For a forest without interior nodes and without roots, RefineNode adds a constant
  node holding the bias and a sum node whose only input is that constant; the port
  \<^verbatim>\<open>output\<close> is mapped to the sum node, which evaluates to the bias, and the ports
  \<^verbatim>\<open>treeOutputs\<close> and \<^verbatim>\<open>edgeIndicatorVector\<close> are mapped to empty PortElements.
\<close>

theorem RefineNode_zero_trees:
  fixes t0 :: "('sr, 'ep) ModelTransformer"
  assumes "EvaluateModel sp epf (model t0) = Some env0"
  shows "\<exists>t. RefineNode self (ForestPredictor [] [] b ne) inp t0 = Some t \<and>
     model t = model t0 @ [ConstantNode [b], SumNode [(length (model t0), 0, 0)]] \<and>
     outputMap t = outputMap t0 @
       [((self, Port_output), [(Suc (length (model t0)), 0, 0)]),
        ((self, Port_treeOutputs), []), ((self, Port_edgeIndicatorVector), [])] \<and>
     EvaluateModel sp epf (model t) = Some (env0 @ [[[D b]], [[D b]]]) \<and>
     eval_pe (env0 @ [[[D b]], [[D b]]]) [(Suc (length (model t0)), 0, 0)] = Some [D b]"
proof -
  let ?f = "ForestPredictor [] [] b ne :: ('sr, 'ep) ForestPredictor"
  let ?t = "assembled self ?f [] [] t0"
  have ev: "evaluates sp epf t0 env0" using assms by (simp add: evaluates_with_def)
  have l: "length env0 = length (model t0)" using evaluates_length[OF ev] .
  have c: "concat (replicate ne ([] :: PortElements)) = []" by (induction ne) simp_all
  have "static_cast_int 0 = 0" by (simp add: static_cast_int_def)
  then have pA: "phaseA ?f inp t0 = Some (t0, [], [])"
    by (simp add: phaseA_def phaseA_loop_def)
  have pB: "phaseB ?f [] t0 = Some (t0, replicate ne [], [])"
    by (simp add: phaseB_def phaseB_loop_def)
  have pC: "phaseC self ?f [] (replicate ne []) t0 = Some ?t"
    by (simp add: phaseC_eq c)
  have r: "RefineNode self ?f inp t0 = Some ?t"
    by (simp add: RefineNode_def pA pB pC)
  have "eval_pe env0 [] = Some (map D [])" by simp
  from assembled_evaluates[OF ev this, of self ?f "[]"]
  have e: "EvaluateModel sp epf (model ?t) = Some (env0 @ [[[D b]], [[D b]]])"
    by (simp add: evaluates_with_def)
  have "eval_pe ((env0 @ [[[D b]]]) @ [[[D b]]]) [(length (env0 @ [[[D b]]]), 0, 0)] = Some [[D b] ! 0]"
    by (rule eval_pe_new_elem) simp
  then have v: "eval_pe (env0 @ [[[D b]], [[D b]]]) [(Suc (length (model t0)), 0, 0)] = Some [D b]"
    by (simp add: l)
  have "model ?t = model t0 @ [ConstantNode [b], SumNode [(length (model t0), 0, 0)]]"
    "outputMap ?t = outputMap t0 @
       [((self, Port_output), [(Suc (length (model t0)), 0, 0)]),
        ((self, Port_treeOutputs), []), ((self, Port_edgeIndicatorVector), [])]"
    by (simp_all add: assembled_def)
  with r e v show ?thesis by blast
qed

theorem RefineNode_zero_trees_witness:
  "EvaluateModel thresholdRule constantPredictor (model exampleTransformer) = Some [[[D 1, D 1]]] \<and>
   (\<exists>t. RefineNode 7 (ForestPredictor [] [] (1 / 2) 0) exampleInput exampleTransformer = Some t \<and>
      model t = [ConstantNode [1, 1], ConstantNode [1 / 2], SumNode [(1, 0, 0)]] \<and>
      outputMap t = [((7, Port_output), [(2, 0, 0)]), ((7, Port_treeOutputs), []),
                     ((7, Port_edgeIndicatorVector), [])] \<and>
      EvaluateModel thresholdRule constantPredictor (model t) =
        Some [[[D 1, D 1]], [[D (1 / 2)]], [[D (1 / 2)]]] \<and>
      eval_pe [[[D 1, D 1]], [[D (1 / 2)]], [[D (1 / 2)]]] [(2, 0, 0)] = Some [D (1 / 2)])"
  using RefineNode_zero_trees[OF ev_example, of 7 "1 / 2" 0 exampleInput] ev_example
  by (simp add: exampleTransformer_def numeral_2_eq_2)

text \<open>
  C10. For a forest that satisfies the structural invariants, the PortElements that
  RefineNode maps to the ports \<^verbatim>\<open>output\<close>, \<^verbatim>\<open>treeOutputs\<close> and \<^verbatim>\<open>edgeIndicatorVector\<close> have 1,
  NumTrees and NumEdges elements, the sizes that the constructor of ForestNode gives
  these ports.
\<close>

theorem RefineNode_keeps_port_sizes:
  fixes t0 :: "('sr, 'ep) ModelTransformer"
  assumes "wf_forest f" and "EvaluateModel sp epf (model t0) = Some env0"
    and "read_doubles env0 inp = Some x"
  shows "\<exists>t out trees ind.
     RefineNode self f inp t0 = Some t \<and>
     outputMap t = outputMap t0 @
       [((self, Port_output), out), ((self, Port_treeOutputs), trees),
        ((self, Port_edgeIndicatorVector), ind)] \<and>
     length out = 1 \<and> length trees = NumTrees f \<and> length ind = NumEdges f \<and>
     length out = OutputSize (ForestNode f inp) 0 \<and>
     length trees = OutputSize (ForestNode f inp) 1 \<and>
     length ind = OutputSize (ForestNode f inp) 2"
proof -
  have ev: "evaluates sp epf t0 env0" using assms(2) by (simp add: evaluates_with_def)
  from RefineNode_evaluates[OF assms(1) ev assms(3), of self]
  obtain t env out trees ind where
    a: "RefineNode self f inp t0 = Some t"
    "outputMap t = outputMap t0 @
       [((self, Port_output), out), ((self, Port_treeOutputs), trees),
        ((self, Port_edgeIndicatorVector), ind)]"
    "eval_pe env out =
       Some [D (foldl (+) (GetBias f) (map (treeValue sp epf f x) (GetRootIndices f)))]"
    "eval_pe env trees = Some (map D (map (treeValue sp epf f x) (GetRootIndices f)))"
    "eval_pe env ind = Some (map B (map (edgeIndicatorOf sp f x) [0..<NumEdges f]))"
    by blast
  from eval_pe_length[OF a(3)] eval_pe_length[OF a(4)] eval_pe_length[OF a(5)]
  have "length out = 1" "length trees = NumTrees f" "length ind = NumEdges f"
    by (simp_all add: NumTrees_def)
  with a(1,2) show ?thesis by auto
qed

theorem RefineNode_keeps_port_sizes_witness:
  "wf_forest twoTreeForest \<and>
   EvaluateModel thresholdRule constantPredictor (model exampleTransformer) = Some [[[D 1, D 1]]] \<and>
   read_doubles [[[D 1, D 1]]] exampleInput = Some [1, 1] \<and>
   NumTrees twoTreeForest = 2 \<and> NumEdges twoTreeForest = 6 \<and>
   (\<exists>out trees ind.
      outputMap refinedExample =
        [((7, Port_output), out), ((7, Port_treeOutputs), trees),
         ((7, Port_edgeIndicatorVector), ind)] \<and>
      length out = 1 \<and> length trees = 2 \<and> length ind = 6)"
proof -
  from RefineNode_keeps_port_sizes[OF wf_twoTreeForest ev_example inp_example, of 7]
  obtain t out trees ind where
    a: "RefineNode 7 twoTreeForest exampleInput exampleTransformer = Some t"
    "outputMap t = outputMap exampleTransformer @
       [((7, Port_output), out), ((7, Port_treeOutputs), trees),
        ((7, Port_edgeIndicatorVector), ind)]"
    "length out = 1" "length trees = NumTrees twoTreeForest" "length ind = NumEdges twoTreeForest"
    by blast
  have n: "NumTrees twoTreeForest = 2" "NumEdges twoTreeForest = 6"
    by (simp_all add: NumTrees_def twoTreeForest_def)
  from a(1) have t: "t = refinedExample" by (simp add: refine_example)
  from a(2) have "outputMap refinedExample =
        [((7, Port_output), out), ((7, Port_treeOutputs), trees),
         ((7, Port_edgeIndicatorVector), ind)]"
    by (simp add: t exampleTransformer_def)
  with a(3,4,5) n wf_twoTreeForest ev_example inp_example show ?thesis by auto
qed


section \<open>The nodes of the refined model\<close>

lemma concat_singletons:
  "\<forall>k<length xs. length (xs ! k) = 1 \<Longrightarrow>
   length (concat xs) = length xs \<and> (\<forall>k<length xs. xs ! k = [concat xs ! k])"
proof (induction xs rule: rev_induct)
  case Nil
  then show ?case by simp
next
  case (snoc x xs)
  have "\<forall>k<length xs. length (xs ! k) = 1"
  proof (intro allI impI)
    fix k assume "k < length xs"
    with snoc.prems[rule_format, of k] show "length (xs ! k) = 1" by (simp add: nth_append)
  qed
  from snoc.IH[OF this] have IH: "length (concat xs) = length xs"
    "\<And>k. k < length xs \<Longrightarrow> xs ! k = [concat xs ! k]" by simp_all
  from snoc.prems[rule_format, of "length xs"] have "length x = 1" by simp
  then obtain a where x: "x = [a]" by (cases x) simp_all
  show ?case using IH by (auto simp: x nth_append less_Suc_eq)
qed

text \<open>
  What RefineNode leaves for a well-formed forest: \<open>ind\<close> is the PortElements mapped to
  \<^verbatim>\<open>edgeIndicatorVector\<close>, \<open>sids\<close> are the nodes of the split rules.
\<close>

lemma RefineNode_final:
  fixes t0 :: "('sr, 'ep) ModelTransformer"
  assumes wf: "wf_forest f" and ev: "evaluates sp epf t0 env0"
    and inp: "read_doubles env0 inp = Some x"
  shows "\<exists>t env out trees ind sids.
     RefineNode self f inp t0 = Some t \<and> evaluates sp epf t env \<and>
     outputMap t = outputMap t0 @
       [((self, Port_output), out), ((self, Port_treeOutputs), trees),
        ((self, Port_edgeIndicatorVector), ind)] \<and>
     length ind = NumEdges f \<and>
     (\<forall>k<NumEdges f. eval_pe env [ind ! k] = Some [B (edgeIndicatorOf sp f x k)]) \<and>
     (\<forall>j<length (GetInteriorNodes f).
        sids j < length (model t) \<and>
        model t ! sids j = SplitRuleNode (GetSplitRule (GetInteriorNodes f ! j)) inp \<and>
        eval_pe env [(sids j, 0, 0)] = Some [B (splitOf sp f x j)] \<and>
        (\<not> hasParent f j \<longrightarrow>
           (\<exists>nid<length (model t).
              model t ! nid = UnaryOperationNode_logicalNot [(sids j, 0, 0)] \<and>
              ind ! (2 * j) = (nid, 0, 0) \<and> ind ! Suc (2 * j) = (sids j, 0, 0))) \<and>
        (\<forall>p q. p < length (GetInteriorNodes f) \<and> q < 2 \<and> leadsTo f p q j \<longrightarrow>
           (\<exists>mid<length (model t).
              model t ! mid = MultiplexorNode [ind ! (2 * p + q)] [(sids j, 0, 0)] 2 \<and>
              ind ! (2 * j) = (mid, 0, 0) \<and> ind ! Suc (2 * j) = (mid, 0, 1))))"
proof -
  let ?K = "length (GetInteriorNodes f)"
  from RefineNode_phases[OF wf ev inp, of self]
  obtain tA SI SM envA tB EI and INC :: "int list" and envB where
    evA: "evaluates sp epf tA envA" and extA: "extends t0 env0 tA envA"
    and okA: "\<forall>j<?K. nodeA_ok sp epf f inp x tA envA j (SI ! j) (SM ! j)"
    and evB: "evaluates sp epf tB envB" and extB: "extends tA envA tB envB"
    and lEI: "length EI = NumEdges f"
    and okB: "\<forall>j<?K. nodeB_ok sp f x tB envB SI EI j"
    and rn: "RefineNode self f inp t0 =
       Some (assembled self f (concat (map ((!) SM) (GetRootIndices f))) (concat EI) tB)"
    by blast
  let ?trees = "concat (map ((!) SM) (GetRootIndices f))"
  let ?t = "assembled self f ?trees (concat EI) tB"
  let ?ind = "concat EI"
  define sids where "sids j = fst (hd (SI ! j))" for j
  have NE: "NumEdges f = 2 * ?K" using wf_numEdges[OF wf] .
  \<comment> \<open>evaluation of the final model\<close>
  from RefineNode_evaluates[OF wf ev inp, of self] rn
  obtain env where evt: "evaluates sp epf ?t env" by auto
  have mt: "model ?t = model tB @
      [ConstantNode [GetBias f], SumNode (?trees @ [(length (model tB), 0, 0)])]"
    by (simp add: assembled_def)
  have pBT: "prefix envB env"
  proof -
    from evB have "run sp epf [] (model tB) = Some envB" by (simp add: evaluates_with_def EvaluateModel_with_def)
    moreover from evt have "run sp epf [] (model ?t) = Some env" by (simp add: evaluates_with_def EvaluateModel_with_def)
    ultimately have "run sp epf envB [ConstantNode [GetBias f], SumNode (?trees @ [(length (model tB), 0, 0)])] = Some env"
      unfolding mt run_append by simp
    then show ?thesis by (auto simp: prefix_def split: Option.bind_splits)
  qed
  have pAB: "prefix envA envB" using extB by (simp add: extends_def)
  have lk: "\<And>n. n < length (model tB) \<Longrightarrow> n < length (model ?t) \<and> model ?t ! n = model tB ! n"
    by (simp add: mt nth_append)
  have lkA: "\<And>n. n < length (model tA) \<Longrightarrow> n < length (model ?t) \<and> model ?t ! n = model tA ! n"
    using extends_node[OF extB] extends_length[OF extB] lk by auto
  have om: "outputMap ?t = outputMap t0 @
       [((self, Port_output), [(Suc (length (model tB)), 0, 0)]), ((self, Port_treeOutputs), ?trees),
        ((self, Port_edgeIndicatorVector), ?ind)]"
    using extA extB by (simp add: assembled_def extends_def)
  \<comment> \<open>the entries of the indicator vector\<close>
  have evalEI: "\<And>k. k < length EI \<Longrightarrow> eval_pe envB (EI ! k) = Some [B (edgeIndicatorOf sp f x k)]"
  proof -
    fix k assume "k < length EI"
    then have j: "k div 2 < ?K" using lEI NE by simp
    have "k = 2 * (k div 2) \<or> k = Suc (2 * (k div 2))" by presburger
    then show "eval_pe envB (EI ! k) = Some [B (edgeIndicatorOf sp f x k)]"
    proof
      assume e: "k = 2 * (k div 2)"
      from okB j have "eval_pe envB (EI ! (2 * (k div 2))) =
          Some [B (edgeIndicatorOf sp f x (2 * (k div 2)))]" by (simp add: nodeB_ok_def)
      with e show ?thesis by simp
    next
      assume e: "k = Suc (2 * (k div 2))"
      from okB j have "eval_pe envB (EI ! Suc (2 * (k div 2))) =
          Some [B (edgeIndicatorOf sp f x (Suc (2 * (k div 2))))]" by (simp add: nodeB_ok_def)
      with e show ?thesis by simp
    qed
  qed
  have "\<forall>k<length EI. length (EI ! k) = 1"
    using eval_pe_length[OF evalEI] by simp
  from concat_singletons[OF this]
  have lind: "length ?ind = length EI" and single: "\<And>k. k < length EI \<Longrightarrow> EI ! k = [?ind ! k]"
    by simp_all
  have vals: "\<forall>k<NumEdges f. eval_pe env [?ind ! k] = Some [B (edgeIndicatorOf sp f x k)]"
  proof (intro allI impI)
    fix k assume "k < NumEdges f"
    then have k: "k < length EI" using lEI by simp
    from eval_pe_prefix[OF evalEI[OF k] pBT] single[OF k]
    show "eval_pe env [?ind ! k] = Some [B (edgeIndicatorOf sp f x k)]" by simp
  qed
  \<comment> \<open>the nodes\<close>
  have nodes: "\<forall>j<?K.
        sids j < length (model ?t) \<and>
        model ?t ! sids j = SplitRuleNode (GetSplitRule (GetInteriorNodes f ! j)) inp \<and>
        eval_pe env [(sids j, 0, 0)] = Some [B (splitOf sp f x j)] \<and>
        (\<not> hasParent f j \<longrightarrow>
           (\<exists>nid<length (model ?t).
              model ?t ! nid = UnaryOperationNode_logicalNot [(sids j, 0, 0)] \<and>
              ?ind ! (2 * j) = (nid, 0, 0) \<and> ?ind ! Suc (2 * j) = (sids j, 0, 0))) \<and>
        (\<forall>p q. p < ?K \<and> q < 2 \<and> leadsTo f p q j \<longrightarrow>
           (\<exists>mid<length (model ?t).
              model ?t ! mid = MultiplexorNode [?ind ! (2 * p + q)] [(sids j, 0, 0)] 2 \<and>
              ?ind ! (2 * j) = (mid, 0, 0) \<and> ?ind ! Suc (2 * j) = (mid, 0, 1)))"
  proof (intro allI impI)
    fix j assume j: "j < ?K"
    from okA j obtain sid where sid: "SI ! j = [(sid, 0, 0)]" "sid < length (model tA)"
      "model tA ! sid = SplitRuleNode (GetSplitRule (GetInteriorNodes f ! j)) inp"
      and vs: "eval_pe envA (SI ! j) = Some [B (splitOf sp f x j)]"
      unfolding nodeA_ok_with_def by blast
    have sj: "sids j = sid" "SI ! j = [(sids j, 0, 0)]" by (simp_all add: sids_def sid(1))
    have e0: "2 * j < length EI" and e1: "Suc (2 * j) < length EI" using j lEI NE by simp_all
    from okB j have b: "nodeB_ok sp f x tB envB SI EI j" by simp
    have a1: "sids j < length (model ?t)"
      "model ?t ! sids j = SplitRuleNode (GetSplitRule (GetInteriorNodes f ! j)) inp"
      using lkA[OF sid(2)] sid(3) sj(1) by simp_all
    have a2: "eval_pe env [(sids j, 0, 0)] = Some [B (splitOf sp f x j)]"
      using eval_pe_prefix[OF eval_pe_prefix[OF vs pAB] pBT] sj(2) by simp
    have a3: "\<not> hasParent f j \<longrightarrow>
           (\<exists>nid<length (model ?t).
              model ?t ! nid = UnaryOperationNode_logicalNot [(sids j, 0, 0)] \<and>
              ?ind ! (2 * j) = (nid, 0, 0) \<and> ?ind ! Suc (2 * j) = (sids j, 0, 0))"
    proof
      assume "\<not> hasParent f j"
      with b obtain nid where n: "nid < length (model tB)"
        "model tB ! nid = UnaryOperationNode_logicalNot (SI ! j)"
        "EI ! (2 * j) = [(nid, 0, 0)]" "EI ! Suc (2 * j) = SI ! j"
        unfolding nodeB_ok_def by blast
      from lk[OF n(1)] n(2,3,4) single[OF e0] single[OF e1] sj(2)
      show "\<exists>nid<length (model ?t).
              model ?t ! nid = UnaryOperationNode_logicalNot [(sids j, 0, 0)] \<and>
              ?ind ! (2 * j) = (nid, 0, 0) \<and> ?ind ! Suc (2 * j) = (sids j, 0, 0)"
        by auto
    qed
    have a4: "\<forall>p q. p < ?K \<and> q < 2 \<and> leadsTo f p q j \<longrightarrow>
           (\<exists>mid<length (model ?t).
              model ?t ! mid = MultiplexorNode [?ind ! (2 * p + q)] [(sids j, 0, 0)] 2 \<and>
              ?ind ! (2 * j) = (mid, 0, 0) \<and> ?ind ! Suc (2 * j) = (mid, 0, 1))"
    proof (intro allI impI)
      fix p q assume pq: "p < ?K \<and> q < 2 \<and> leadsTo f p q j"
      with b obtain mid where m: "mid < length (model tB)"
        "model tB ! mid = MultiplexorNode (EI ! (2 * p + q)) (SI ! j) 2"
        "EI ! (2 * j) = [(mid, 0, 0)]" "EI ! Suc (2 * j) = [(mid, 0, 1)]"
        unfolding nodeB_ok_def by blast
      have "2 * p + q < length EI" using pq lEI NE by simp
      from single[OF this] lk[OF m(1)] m(2,3,4) single[OF e0] single[OF e1] sj(2)
      show "\<exists>mid<length (model ?t).
              model ?t ! mid = MultiplexorNode [?ind ! (2 * p + q)] [(sids j, 0, 0)] 2 \<and>
              ?ind ! (2 * j) = (mid, 0, 0) \<and> ?ind ! Suc (2 * j) = (mid, 0, 1)"
        by auto
    qed
    from a1 a2 a3 a4
    show "sids j < length (model ?t) \<and>
        model ?t ! sids j = SplitRuleNode (GetSplitRule (GetInteriorNodes f ! j)) inp \<and>
        eval_pe env [(sids j, 0, 0)] = Some [B (splitOf sp f x j)] \<and>
        (\<not> hasParent f j \<longrightarrow>
           (\<exists>nid<length (model ?t).
              model ?t ! nid = UnaryOperationNode_logicalNot [(sids j, 0, 0)] \<and>
              ?ind ! (2 * j) = (nid, 0, 0) \<and> ?ind ! Suc (2 * j) = (sids j, 0, 0))) \<and>
        (\<forall>p q. p < ?K \<and> q < 2 \<and> leadsTo f p q j \<longrightarrow>
           (\<exists>mid<length (model ?t).
              model ?t ! mid = MultiplexorNode [?ind ! (2 * p + q)] [(sids j, 0, 0)] 2 \<and>
              ?ind ! (2 * j) = (mid, 0, 0) \<and> ?ind ! Suc (2 * j) = (mid, 0, 1)))"
      by blast
  qed
  from rn evt om lind lEI vals nodes show ?thesis by (intro exI[of _ ?t] exI[of _ env] exI[of _ "[(Suc (length (model tB)), 0, 0)]"] exI[of _ ?trees] exI[of _ ?ind] exI[of _ sids]) simp
qed

text \<open>
  All edges of the forest with their edge indices, in the order of the interior nodes and
  of the edge positions, and the first of them that leads to the interior node \<open>i\<close>.
\<close>

definition forestEdges :: "('sr, 'ep) ForestPredictor \<Rightarrow> (nat \<times> 'ep Edge) list" where
  "forestEdges f =
     concat (map (\<lambda>node. zip [GetFirstEdgeIndex node..<GetFirstEdgeIndex node + length (GetOutgoingEdges node)]
                               (GetOutgoingEdges node))
                 (GetInteriorNodes f))"

definition firstEdgeTo :: "('sr, 'ep) ForestPredictor \<Rightarrow> nat \<Rightarrow> nat option" where
  "firstEdgeTo f i =
     map_option fst (find (\<lambda>ke. IsTargetInterior (snd ke) \<and> GetTargetNodeIndex (snd ke) = i) (forestEdges f))"

lemma forestEdges_set:
  "(k, e) \<in> set (forestEdges f) \<longleftrightarrow>
     (\<exists>n<length (GetInteriorNodes f). \<exists>r<length (GetOutgoingEdges (GetInteriorNodes f ! n)).
        k = GetFirstEdgeIndex (GetInteriorNodes f ! n) + r \<and> e = edgeAt f n r)"
proof
  assume "(k, e) \<in> set (forestEdges f)"
  then obtain node where node: "node \<in> set (GetInteriorNodes f)"
    "(k, e) \<in> set (zip [GetFirstEdgeIndex node..<GetFirstEdgeIndex node + length (GetOutgoingEdges node)]
                     (GetOutgoingEdges node))"
    by (auto simp: forestEdges_def)
  from node(1) obtain n where n: "n < length (GetInteriorNodes f)" "node = GetInteriorNodes f ! n"
    by (auto simp: in_set_conv_nth)
  from node(2) obtain r where r: "r < length (GetOutgoingEdges node)"
    "[GetFirstEdgeIndex node..<GetFirstEdgeIndex node + length (GetOutgoingEdges node)] ! r = k"
    "GetOutgoingEdges node ! r = e"
    by (auto simp: in_set_zip)
  from r(1,2) have "k = GetFirstEdgeIndex node + r" by simp
  with n r show "\<exists>n<length (GetInteriorNodes f). \<exists>r<length (GetOutgoingEdges (GetInteriorNodes f ! n)).
        k = GetFirstEdgeIndex (GetInteriorNodes f ! n) + r \<and> e = edgeAt f n r"
    by (auto simp: edgeAt_def)
next
  assume "\<exists>n<length (GetInteriorNodes f). \<exists>r<length (GetOutgoingEdges (GetInteriorNodes f ! n)).
        k = GetFirstEdgeIndex (GetInteriorNodes f ! n) + r \<and> e = edgeAt f n r"
  then obtain n r where nr: "n < length (GetInteriorNodes f)"
    "r < length (GetOutgoingEdges (GetInteriorNodes f ! n))"
    "k = GetFirstEdgeIndex (GetInteriorNodes f ! n) + r" "e = edgeAt f n r" by blast
  let ?node = "GetInteriorNodes f ! n"
  have "(k, e) \<in> set (zip [GetFirstEdgeIndex ?node..<GetFirstEdgeIndex ?node + length (GetOutgoingEdges ?node)]
                     (GetOutgoingEdges ?node))"
    unfolding in_set_zip using nr by (intro exI[of _ r]) (simp add: edgeAt_def)
  moreover have "?node \<in> set (GetInteriorNodes f)" using nr(1) by simp
  ultimately show "(k, e) \<in> set (forestEdges f)" unfolding forestEdges_def by auto
qed

lemma find_Some_holds: "find P xs = Some a \<Longrightarrow> P a \<and> a \<in> set xs"
  by (induction xs) (auto split: if_splits)

lemma firstEdgeTo_wf:
  assumes wf: "wf_forest f" and p: "p < length (GetInteriorNodes f)" and q: "q < 2"
    and lt: "leadsTo f p q i"
  shows "firstEdgeTo f i = Some (2 * p + q)"
proof -
  let ?P = "\<lambda>ke :: nat \<times> 'b Edge. IsTargetInterior (snd ke) \<and> GetTargetNodeIndex (snd ke) = i"
  have "(2 * p + q, edgeAt f p q) \<in> set (forestEdges f)"
    unfolding forestEdges_set using p q wf_edges_len[OF wf p] wf_firstEdge[OF wf p]
    by (intro exI[of _ p] exI[of _ q]) simp
  moreover have "?P (2 * p + q, edgeAt f p q)" using lt by (simp add: leadsTo_def)
  ultimately have "find ?P (forestEdges f) \<noteq> None" unfolding find_None_iff by blast
  then obtain k e where ke: "find ?P (forestEdges f) = Some (k, e)" by auto
  from find_Some_holds[OF this] have "?P (k, e)" "(k, e) \<in> set (forestEdges f)"
    by simp_all
  then obtain n r where nr: "n < length (GetInteriorNodes f)"
    "r < length (GetOutgoingEdges (GetInteriorNodes f ! n))"
    "k = GetFirstEdgeIndex (GetInteriorNodes f ! n) + r" "e = edgeAt f n r"
    "IsTargetInterior e" "GetTargetNodeIndex e = i"
    unfolding forestEdges_set by auto
  have r2: "r < 2" using nr(2) wf_edges_len[OF wf nr(1)] by simp
  have "leadsTo f n r i" using nr(4,5,6) by (simp add: leadsTo_def)
  from wf_unique[OF wf nr(1) r2 this p q lt] have "n = p" "r = q" by simp_all
  then have "k = 2 * p + q" using nr(3) wf_firstEdge[OF wf p] by simp
  with ke show ?thesis by (simp add: firstEdgeTo_def)
qed

lemma pairs_concat:
  "length xs = 2 * k \<Longrightarrow> xs = concat (map (\<lambda>j. [xs ! (2 * j), xs ! Suc (2 * j)]) [0..<k])"
proof (induction k arbitrary: xs)
  case 0
  then show ?case by simp
next
  case (Suc k)
  let ?ys = "take (2 * k) xs"
  have l: "length ?ys = 2 * k" using Suc.prems by simp
  from Suc.IH[OF l] have "?ys = concat (map (\<lambda>j. [?ys ! (2 * j), ?ys ! Suc (2 * j)]) [0..<k])" .
  moreover have "map (\<lambda>j. [?ys ! (2 * j), ?ys ! Suc (2 * j)]) [0..<k] =
                 map (\<lambda>j. [xs ! (2 * j), xs ! Suc (2 * j)]) [0..<k]"
    by (rule map_cong) simp_all
  ultimately have a: "?ys = concat (map (\<lambda>j. [xs ! (2 * j), xs ! Suc (2 * j)]) [0..<k])" by simp
  have "drop (2 * k) xs = [xs ! (2 * k), xs ! Suc (2 * k)]"
  proof (rule nth_equalityI)
    show "length (drop (2 * k) xs) = length [xs ! (2 * k), xs ! Suc (2 * k)]" using Suc.prems by simp
  next
    fix i assume "i < length (drop (2 * k) xs)"
    then have "i = 0 \<or> i = 1" using Suc.prems by auto
    then show "drop (2 * k) xs ! i = [xs ! (2 * k), xs ! Suc (2 * k)] ! i"
      using Suc.prems by auto
  qed
  then have "xs = ?ys @ [xs ! (2 * k), xs ! Suc (2 * k)]"
    by (metis append_take_drop_id)
  with a show ?case by simp
qed

text \<open>
  C3. For a forest that satisfies the structural invariants and an interior node \<open>i\<close> that
  is not a root: the first edge of the forest whose target is \<open>i\<close> is an edge \<open>parentEdge\<close>,
  and the two entries of the indicator vector for the edges of \<open>i\<close> are outputs 0 and 1 of
  one multiplexor node with two outputs, whose input is the indicator of \<open>parentEdge\<close> and
  whose selector is the node of the split rule of \<open>i\<close>; they evaluate to (parent and not
  split) and (parent and split).
\<close>

theorem nonroot_indicators_gated_by_parent_edge:
  fixes t0 :: "('sr, 'ep) ModelTransformer"
  assumes "wf_forest f" and "EvaluateModel sp epf (model t0) = Some env0"
    and "read_doubles env0 inp = Some x"
    and "i < length (GetInteriorNodes f)" and "i \<notin> set (GetRootIndices f)"
  shows "\<exists>t env out trees ind parentEdge mux sid parent split.
     RefineNode self f inp t0 = Some t \<and> EvaluateModel sp epf (model t) = Some env \<and>
     outputMap t = outputMap t0 @
       [((self, Port_output), out), ((self, Port_treeOutputs), trees),
        ((self, Port_edgeIndicatorVector), ind)] \<and>
     firstEdgeTo f i = Some parentEdge \<and> parentEdge < NumEdges f \<and>
     mux < length (model t) \<and> sid < length (model t) \<and>
     model t ! sid = SplitRuleNode (GetSplitRule (GetInteriorNodes f ! i)) inp \<and>
     model t ! mux = MultiplexorNode [ind ! parentEdge] [(sid, 0, 0)] 2 \<and>
     ind ! GetFirstEdgeIndex (GetInteriorNodes f ! i) = (mux, 0, 0) \<and>
     ind ! Suc (GetFirstEdgeIndex (GetInteriorNodes f ! i)) = (mux, 0, 1) \<and>
     eval_pe env [ind ! parentEdge] = Some [B parent] \<and>
     eval_pe env [(sid, 0, 0)] = Some [B split] \<and>
     eval_pe env [(mux, 0, 0)] = Some [B (parent \<and> \<not> split)] \<and>
     eval_pe env [(mux, 0, 1)] = Some [B (parent \<and> split)]"
proof -
  let ?K = "length (GetInteriorNodes f)"
  have ev: "evaluates sp epf t0 env0" using assms(2) by (simp add: evaluates_with_def)
  have "hasParent f i" using wf_orphan[OF assms(1,4)] assms(5) by blast
  then obtain p q where pq: "p < ?K" "q < 2" "leadsTo f p q i" by (auto simp: hasParent_def)
  have NE: "NumEdges f = 2 * ?K" using wf_numEdges[OF assms(1)] .
  have pe: "2 * p + q < NumEdges f" using pq NE by simp
  have ie: "2 * i < NumEdges f" "Suc (2 * i) < NumEdges f" using assms(4) NE by simp_all
  from RefineNode_final[OF assms(1) ev assms(3), of self]
  obtain t env out trees ind sids where
    r: "RefineNode self f inp t0 = Some t" "evaluates sp epf t env"
    "outputMap t = outputMap t0 @
       [((self, Port_output), out), ((self, Port_treeOutputs), trees),
        ((self, Port_edgeIndicatorVector), ind)]"
    and vals: "\<forall>k<NumEdges f. eval_pe env [ind ! k] = Some [B (edgeIndicatorOf sp f x k)]"
    and nodes: "\<forall>j<?K.
        sids j < length (model t) \<and>
        model t ! sids j = SplitRuleNode (GetSplitRule (GetInteriorNodes f ! j)) inp \<and>
        eval_pe env [(sids j, 0, 0)] = Some [B (splitOf sp f x j)] \<and>
        (\<not> hasParent f j \<longrightarrow>
           (\<exists>nid<length (model t).
              model t ! nid = UnaryOperationNode_logicalNot [(sids j, 0, 0)] \<and>
              ind ! (2 * j) = (nid, 0, 0) \<and> ind ! Suc (2 * j) = (sids j, 0, 0))) \<and>
        (\<forall>p q. p < ?K \<and> q < 2 \<and> leadsTo f p q j \<longrightarrow>
           (\<exists>mid<length (model t).
              model t ! mid = MultiplexorNode [ind ! (2 * p + q)] [(sids j, 0, 0)] 2 \<and>
              ind ! (2 * j) = (mid, 0, 0) \<and> ind ! Suc (2 * j) = (mid, 0, 1)))"
    by blast
  from nodes assms(4) pq obtain mid where
    s: "sids i < length (model t)"
    "model t ! sids i = SplitRuleNode (GetSplitRule (GetInteriorNodes f ! i)) inp"
    "eval_pe env [(sids i, 0, 0)] = Some [B (splitOf sp f x i)]"
    and m: "mid < length (model t)"
    "model t ! mid = MultiplexorNode [ind ! (2 * p + q)] [(sids i, 0, 0)] 2"
    "ind ! (2 * i) = (mid, 0, 0)" "ind ! Suc (2 * i) = (mid, 0, 1)"
    by blast
  let ?parent = "edgeIndicatorOf sp f x (2 * p + q)"
  let ?split = "splitOf sp f x i"
  have act: "active sp f x i \<longleftrightarrow> ?parent"
    using active_child[OF assms(1) pq, of sp x] pq(2) by (simp add: edgeIndicatorOf_edge)
  have v0: "eval_pe env [(mid, 0, 0)] = Some [B (?parent \<and> \<not> ?split)]"
    using vals[rule_format, OF ie(1)] m(3) by (simp add: edgeIndicatorOf_even act)
  have v1: "eval_pe env [(mid, 0, 1)] = Some [B (?parent \<and> ?split)]"
    using vals[rule_format, OF ie(2)] m(4) by (simp add: edgeIndicatorOf_odd act)
  have vp: "eval_pe env [ind ! (2 * p + q)] = Some [B ?parent]"
    using vals[rule_format, OF pe] .
  have fe: "GetFirstEdgeIndex (GetInteriorNodes f ! i) = 2 * i"
    using wf_firstEdge[OF assms(1,4)] .
  from r firstEdgeTo_wf[OF assms(1) pq] pe m s vp v0 v1 show ?thesis
    unfolding fe evaluates_with_def by blast
qed

lemma firstEdgeTo_example: "firstEdgeTo twoTreeForest 1 = Some 1"
  by code_simp

theorem nonroot_indicators_gated_by_parent_edge_witness:
  "wf_forest twoTreeForest \<and>
   EvaluateModel thresholdRule constantPredictor (model exampleTransformer) = Some [[[D 1, D 1]]] \<and>
   read_doubles [[[D 1, D 1]]] exampleInput = Some [1, 1] \<and>
   (1 :: nat) < length (GetInteriorNodes twoTreeForest) \<and>
   (1 :: nat) \<notin> set (GetRootIndices twoTreeForest) \<and>
   firstEdgeTo twoTreeForest 1 = Some 1 \<and>
   (\<exists>env parent split.
      EvaluateModel thresholdRule constantPredictor (model refinedExample) = Some env \<and>
      model refinedExample ! 15 = MultiplexorNode [(12, 0, 0)] [(7, 0, 0)] 2 \<and>
      model refinedExample ! 7 = SplitRuleNode (1, 1 / 2) exampleInput \<and>
      eval_pe env [(12, 0, 0)] = Some [B parent] \<and>
      eval_pe env [(7, 0, 0)] = Some [B split] \<and>
      eval_pe env [(15, 0, 0)] = Some [B (parent \<and> \<not> split)] \<and>
      eval_pe env [(15, 0, 1)] = Some [B (parent \<and> split)])"
proof -
  have i: "(1 :: nat) < length (GetInteriorNodes twoTreeForest)"
    "(1 :: nat) \<notin> set (GetRootIndices twoTreeForest)"
    by (simp_all add: twoTreeForest_def)
  from nonroot_indicators_gated_by_parent_edge[OF wf_twoTreeForest ev_example inp_example i, of 7]
  obtain t env out trees ind parentEdge mux sid parent split where
    a: "RefineNode 7 twoTreeForest exampleInput exampleTransformer = Some t"
    "EvaluateModel thresholdRule constantPredictor (model t) = Some env"
    "outputMap t = outputMap exampleTransformer @
       [((7, Port_output), out), ((7, Port_treeOutputs), trees),
        ((7, Port_edgeIndicatorVector), ind)]"
    "firstEdgeTo twoTreeForest 1 = Some parentEdge"
    "model t ! sid = SplitRuleNode (GetSplitRule (GetInteriorNodes twoTreeForest ! 1)) exampleInput"
    "model t ! mux = MultiplexorNode [ind ! parentEdge] [(sid, 0, 0)] 2"
    "ind ! GetFirstEdgeIndex (GetInteriorNodes twoTreeForest ! 1) = (mux, 0, 0)"
    "eval_pe env [ind ! parentEdge] = Some [B parent]"
    "eval_pe env [(sid, 0, 0)] = Some [B split]"
    "eval_pe env [(mux, 0, 0)] = Some [B (parent \<and> \<not> split)]"
    "eval_pe env [(mux, 0, 1)] = Some [B (parent \<and> split)]"
    by blast
  from a(1) have t: "t = refinedExample" by (simp add: refine_example)
  from a(3) have ind: "ind = [(14, 0, 0), (12, 0, 0), (15, 0, 0), (15, 0, 1), (16, 0, 0), (3, 0, 0)]"
    by (simp add: t refinedExample_def exampleTransformer_def)
  from a(4) firstEdgeTo_example have pe: "parentEdge = 1" by simp
  from a(7) have mux: "mux = 15" by (simp add: ind twoTreeForest_def)
  from a(6) have sid: "sid = 7" by (simp add: t mux ind pe refinedExample_def)
  have m: "model refinedExample ! 15 = MultiplexorNode [(12, 0, 0)] [(7, 0, 0)] 2"
    "model refinedExample ! 7 = SplitRuleNode (1, 1 / 2) exampleInput"
    by (simp_all add: refinedExample_def exampleInput_def)
  from a(2,8,9,10,11) have
    "EvaluateModel thresholdRule constantPredictor (model refinedExample) = Some env"
    "eval_pe env [(12, 0, 0)] = Some [B parent]"
    "eval_pe env [(7, 0, 0)] = Some [B split]"
    "eval_pe env [(15, 0, 0)] = Some [B (parent \<and> \<not> split)]"
    "eval_pe env [(15, 0, 1)] = Some [B (parent \<and> split)]"
    by (simp_all add: t ind pe mux sid)
  with wf_twoTreeForest ev_example inp_example i firstEdgeTo_example m show ?thesis by blast
qed

text \<open>
  C4. For a forest that satisfies the structural invariants: for every root, the entry of
  the indicator vector for its edge 0 is the output of a logical-not node applied to the
  node of its split rule, and the entry for its edge 1 is the output of that split rule
  node itself; the vector has one entry for each edge of the forest and is the
  concatenation, over the interior nodes in the ascending order of their first edge
  indices, of the two indicator outputs of each node (of a logical-not node and the split
  rule, or outputs 0 and 1 of a multiplexor whose selector is the split rule).
\<close>

theorem root_indicators_and_indicator_vector:
  fixes t0 :: "('sr, 'ep) ModelTransformer"
  assumes "wf_forest f" and "EvaluateModel sp epf (model t0) = Some env0"
    and "read_doubles env0 inp = Some x"
  shows "\<exists>t env out trees ind sids.
     RefineNode self f inp t0 = Some t \<and> EvaluateModel sp epf (model t) = Some env \<and>
     outputMap t = outputMap t0 @
       [((self, Port_output), out), ((self, Port_treeOutputs), trees),
        ((self, Port_edgeIndicatorVector), ind)] \<and>
     (\<forall>r\<in>set (GetRootIndices f).
        \<exists>notNode split. notNode < length (model t) \<and>
          model t ! sids r = SplitRuleNode (GetSplitRule (GetInteriorNodes f ! r)) inp \<and>
          model t ! notNode = UnaryOperationNode_logicalNot [(sids r, 0, 0)] \<and>
          ind ! GetFirstEdgeIndex (GetInteriorNodes f ! r) = (notNode, 0, 0) \<and>
          ind ! Suc (GetFirstEdgeIndex (GetInteriorNodes f ! r)) = (sids r, 0, 0) \<and>
          eval_pe env [(sids r, 0, 0)] = Some [B split] \<and>
          eval_pe env [(notNode, 0, 0)] = Some [B (\<not> split)]) \<and>
     length ind = NumEdges f \<and>
     sorted_wrt (<) (map GetFirstEdgeIndex (GetInteriorNodes f)) \<and>
     ind = concat (map (\<lambda>node. [ind ! GetFirstEdgeIndex node, ind ! Suc (GetFirstEdgeIndex node)])
                       (GetInteriorNodes f)) \<and>
     (\<forall>j<length (GetInteriorNodes f).
        model t ! sids j = SplitRuleNode (GetSplitRule (GetInteriorNodes f ! j)) inp \<and>
        ((\<exists>notNode. model t ! notNode = UnaryOperationNode_logicalNot [(sids j, 0, 0)] \<and>
            ind ! GetFirstEdgeIndex (GetInteriorNodes f ! j) = (notNode, 0, 0) \<and>
            ind ! Suc (GetFirstEdgeIndex (GetInteriorNodes f ! j)) = (sids j, 0, 0)) \<or>
         (\<exists>mux parentIndicator. model t ! mux = MultiplexorNode parentIndicator [(sids j, 0, 0)] 2 \<and>
            ind ! GetFirstEdgeIndex (GetInteriorNodes f ! j) = (mux, 0, 0) \<and>
            ind ! Suc (GetFirstEdgeIndex (GetInteriorNodes f ! j)) = (mux, 0, 1))))"
proof -
  let ?K = "length (GetInteriorNodes f)"
  have ev: "evaluates sp epf t0 env0" using assms(2) by (simp add: evaluates_with_def)
  have NE: "NumEdges f = 2 * ?K" using wf_numEdges[OF assms(1)] .
  have fe: "\<And>j. j < ?K \<Longrightarrow> GetFirstEdgeIndex (GetInteriorNodes f ! j) = 2 * j"
    using wf_firstEdge[OF assms(1)] .
  from RefineNode_final[OF assms(1) ev assms(3), of self]
  obtain t env out trees ind sids where
    r: "RefineNode self f inp t0 = Some t" "evaluates sp epf t env"
    "outputMap t = outputMap t0 @
       [((self, Port_output), out), ((self, Port_treeOutputs), trees),
        ((self, Port_edgeIndicatorVector), ind)]"
    and lind: "length ind = NumEdges f"
    and vals: "\<forall>k<NumEdges f. eval_pe env [ind ! k] = Some [B (edgeIndicatorOf sp f x k)]"
    and nodes: "\<forall>j<?K.
        sids j < length (model t) \<and>
        model t ! sids j = SplitRuleNode (GetSplitRule (GetInteriorNodes f ! j)) inp \<and>
        eval_pe env [(sids j, 0, 0)] = Some [B (splitOf sp f x j)] \<and>
        (\<not> hasParent f j \<longrightarrow>
           (\<exists>nid<length (model t).
              model t ! nid = UnaryOperationNode_logicalNot [(sids j, 0, 0)] \<and>
              ind ! (2 * j) = (nid, 0, 0) \<and> ind ! Suc (2 * j) = (sids j, 0, 0))) \<and>
        (\<forall>p q. p < ?K \<and> q < 2 \<and> leadsTo f p q j \<longrightarrow>
           (\<exists>mid<length (model t).
              model t ! mid = MultiplexorNode [ind ! (2 * p + q)] [(sids j, 0, 0)] 2 \<and>
              ind ! (2 * j) = (mid, 0, 0) \<and> ind ! Suc (2 * j) = (mid, 0, 1)))"
    by blast
  have roots: "\<forall>r\<in>set (GetRootIndices f).
        \<exists>notNode split. notNode < length (model t) \<and>
          model t ! sids r = SplitRuleNode (GetSplitRule (GetInteriorNodes f ! r)) inp \<and>
          model t ! notNode = UnaryOperationNode_logicalNot [(sids r, 0, 0)] \<and>
          ind ! GetFirstEdgeIndex (GetInteriorNodes f ! r) = (notNode, 0, 0) \<and>
          ind ! Suc (GetFirstEdgeIndex (GetInteriorNodes f ! r)) = (sids r, 0, 0) \<and>
          eval_pe env [(sids r, 0, 0)] = Some [B split] \<and>
          eval_pe env [(notNode, 0, 0)] = Some [B (\<not> split)]"
  proof
    fix r assume "r \<in> set (GetRootIndices f)"
    with wf_root[OF assms(1)] have rK: "r < ?K" and np: "\<not> hasParent f r" by blast+
    from nodes rK np obtain nid where
      n: "model t ! sids r = SplitRuleNode (GetSplitRule (GetInteriorNodes f ! r)) inp"
      "eval_pe env [(sids r, 0, 0)] = Some [B (splitOf sp f x r)]"
      "nid < length (model t)" "model t ! nid = UnaryOperationNode_logicalNot [(sids r, 0, 0)]"
      "ind ! (2 * r) = (nid, 0, 0)" "ind ! Suc (2 * r) = (sids r, 0, 0)"
      by blast
    have "2 * r < NumEdges f" using rK NE by simp
    from vals[rule_format, OF this] n(5)
    have "eval_pe env [(nid, 0, 0)] = Some [B (\<not> splitOf sp f x r)]"
      by (simp add: edgeIndicatorOf_even active_orphan[OF assms(1) rK np])
    with n show "\<exists>notNode split. notNode < length (model t) \<and>
          model t ! sids r = SplitRuleNode (GetSplitRule (GetInteriorNodes f ! r)) inp \<and>
          model t ! notNode = UnaryOperationNode_logicalNot [(sids r, 0, 0)] \<and>
          ind ! GetFirstEdgeIndex (GetInteriorNodes f ! r) = (notNode, 0, 0) \<and>
          ind ! Suc (GetFirstEdgeIndex (GetInteriorNodes f ! r)) = (sids r, 0, 0) \<and>
          eval_pe env [(sids r, 0, 0)] = Some [B split] \<and>
          eval_pe env [(notNode, 0, 0)] = Some [B (\<not> split)]"
      unfolding fe[OF rK] by blast
  qed
  have femap: "map GetFirstEdgeIndex (GetInteriorNodes f) = map (\<lambda>j. 2 * j) [0..<?K]"
    by (rule nth_equalityI) (simp_all add: fe)
  have srt: "sorted_wrt (<) (map GetFirstEdgeIndex (GetInteriorNodes f))"
    unfolding femap by (simp add: sorted_wrt_iff_nth_less)
  have "map (\<lambda>node. [ind ! GetFirstEdgeIndex node, ind ! Suc (GetFirstEdgeIndex node)]) (GetInteriorNodes f)
        = map (\<lambda>j. [ind ! (2 * j), ind ! Suc (2 * j)]) [0..<?K]"
    by (rule nth_equalityI) (simp_all add: fe)
  with pairs_concat[of ind ?K] lind NE
  have cc: "ind = concat (map (\<lambda>node. [ind ! GetFirstEdgeIndex node, ind ! Suc (GetFirstEdgeIndex node)])
                       (GetInteriorNodes f))" by simp
  have each: "\<forall>j<?K.
        model t ! sids j = SplitRuleNode (GetSplitRule (GetInteriorNodes f ! j)) inp \<and>
        ((\<exists>notNode. model t ! notNode = UnaryOperationNode_logicalNot [(sids j, 0, 0)] \<and>
            ind ! GetFirstEdgeIndex (GetInteriorNodes f ! j) = (notNode, 0, 0) \<and>
            ind ! Suc (GetFirstEdgeIndex (GetInteriorNodes f ! j)) = (sids j, 0, 0)) \<or>
         (\<exists>mux parentIndicator. model t ! mux = MultiplexorNode parentIndicator [(sids j, 0, 0)] 2 \<and>
            ind ! GetFirstEdgeIndex (GetInteriorNodes f ! j) = (mux, 0, 0) \<and>
            ind ! Suc (GetFirstEdgeIndex (GetInteriorNodes f ! j)) = (mux, 0, 1)))"
  proof (intro allI impI)
    fix j assume j: "j < ?K"
    show "model t ! sids j = SplitRuleNode (GetSplitRule (GetInteriorNodes f ! j)) inp \<and>
        ((\<exists>notNode. model t ! notNode = UnaryOperationNode_logicalNot [(sids j, 0, 0)] \<and>
            ind ! GetFirstEdgeIndex (GetInteriorNodes f ! j) = (notNode, 0, 0) \<and>
            ind ! Suc (GetFirstEdgeIndex (GetInteriorNodes f ! j)) = (sids j, 0, 0)) \<or>
         (\<exists>mux parentIndicator. model t ! mux = MultiplexorNode parentIndicator [(sids j, 0, 0)] 2 \<and>
            ind ! GetFirstEdgeIndex (GetInteriorNodes f ! j) = (mux, 0, 0) \<and>
            ind ! Suc (GetFirstEdgeIndex (GetInteriorNodes f ! j)) = (mux, 0, 1)))"
    proof (cases "hasParent f j")
      case True
      then obtain p q where "p < ?K \<and> q < 2 \<and> leadsTo f p q j" by (auto simp: hasParent_def)
      with nodes j show ?thesis unfolding fe[OF j] by blast
    next
      case False
      with nodes j show ?thesis unfolding fe[OF j] by blast
    qed
  qed
  from r roots lind srt cc each show ?thesis unfolding evaluates_with_def by blast
qed

theorem root_indicators_and_indicator_vector_witness:
  "wf_forest twoTreeForest \<and>
   EvaluateModel thresholdRule constantPredictor (model exampleTransformer) = Some [[[D 1, D 1]]] \<and>
   read_doubles [[[D 1, D 1]]] exampleInput = Some [1, 1] \<and>
   (0 :: nat) \<in> set (GetRootIndices twoTreeForest) \<and>
   NumEdges twoTreeForest = 6 \<and>
   (\<exists>env split.
      EvaluateModel thresholdRule constantPredictor (model refinedExample) = Some env \<and>
      model refinedExample ! 12 = SplitRuleNode (0, 0) exampleInput \<and>
      model refinedExample ! 14 = UnaryOperationNode_logicalNot [(12, 0, 0)] \<and>
      eval_pe env [(12, 0, 0)] = Some [B split] \<and>
      eval_pe env [(14, 0, 0)] = Some [B (\<not> split)])"
proof -
  have r0: "(0 :: nat) \<in> set (GetRootIndices twoTreeForest)" by (simp add: twoTreeForest_def)
  from root_indicators_and_indicator_vector[OF wf_twoTreeForest ev_example inp_example, of 7]
  obtain t env out trees ind sids where
    a: "RefineNode 7 twoTreeForest exampleInput exampleTransformer = Some t"
    "EvaluateModel thresholdRule constantPredictor (model t) = Some env"
    "outputMap t = outputMap exampleTransformer @
       [((7, Port_output), out), ((7, Port_treeOutputs), trees),
        ((7, Port_edgeIndicatorVector), ind)]"
    and roots: "\<forall>r\<in>set (GetRootIndices twoTreeForest).
        \<exists>notNode split. notNode < length (model t) \<and>
          model t ! sids r = SplitRuleNode (GetSplitRule (GetInteriorNodes twoTreeForest ! r)) exampleInput \<and>
          model t ! notNode = UnaryOperationNode_logicalNot [(sids r, 0, 0)] \<and>
          ind ! GetFirstEdgeIndex (GetInteriorNodes twoTreeForest ! r) = (notNode, 0, 0) \<and>
          ind ! Suc (GetFirstEdgeIndex (GetInteriorNodes twoTreeForest ! r)) = (sids r, 0, 0) \<and>
          eval_pe env [(sids r, 0, 0)] = Some [B split] \<and>
          eval_pe env [(notNode, 0, 0)] = Some [B (\<not> split)]"
    by blast
  from roots r0 obtain notNode split where
    b: "ind ! GetFirstEdgeIndex (GetInteriorNodes twoTreeForest ! 0) = (notNode, 0, 0)"
    "ind ! Suc (GetFirstEdgeIndex (GetInteriorNodes twoTreeForest ! 0)) = (sids 0, 0, 0)"
    "eval_pe env [(sids 0, 0, 0)] = Some [B split]"
    "eval_pe env [(notNode, 0, 0)] = Some [B (\<not> split)]"
    by blast
  from a(1) have t: "t = refinedExample" by (simp add: refine_example)
  from a(3) have ind: "ind = [(14, 0, 0), (12, 0, 0), (15, 0, 0), (15, 0, 1), (16, 0, 0), (3, 0, 0)]"
    by (simp add: t refinedExample_def exampleTransformer_def)
  from b(1) have n: "notNode = 14" by (simp add: ind twoTreeForest_def)
  from b(2) have s0: "sids 0 = 12" by (simp add: ind twoTreeForest_def)
  have m: "model refinedExample ! 12 = SplitRuleNode (0, 0) exampleInput"
    "model refinedExample ! 14 = UnaryOperationNode_logicalNot [(12, 0, 0)]"
    by (simp_all add: refinedExample_def exampleInput_def)
  have ne: "NumEdges twoTreeForest = 6" by (simp add: twoTreeForest_def)
  from a(2) b(3,4) have
    "EvaluateModel thresholdRule constantPredictor (model refinedExample) = Some env"
    "eval_pe env [(12, 0, 0)] = Some [B split]"
    "eval_pe env [(14, 0, 0)] = Some [B (\<not> split)]"
    by (simp_all add: t n s0)
  with wf_twoTreeForest ev_example inp_example r0 ne m show ?thesis by blast
qed


text \<open>
  C9. For a forest that satisfies the structural invariants RefineNode returns, so no
  access leaves an array; when the iteration of Phase A for node \<open>i\<close> starts, the target
  of every interior edge of \<open>i\<close> lies after \<open>i\<close>, inside \<^verbatim>\<open>interiorNodeSubModels\<close>, and its
  entry there is the output of a selector node, assigned by an earlier iteration; when
  the iteration of Phase B for node \<open>i\<close> starts and the recorded incoming edge index of
  \<open>i\<close> is not -1, it is the index of an edge of an earlier node \<open>p\<close> that leads to \<open>i\<close>, it
  lies inside \<^verbatim>\<open>edgeIndicatorSubModels\<close>, and its entry there holds one element, assigned
  while \<open>p\<close> was visited.
\<close>

theorem RefineNode_reads_assigned_entries:
  fixes t0 :: "('sr, 'ep) ModelTransformer"
  assumes "wf_forest f" and "EvaluateModel sp epf (model t0) = Some env0"
    and "read_doubles env0 inp = Some x"
  shows "(\<exists>t. RefineNode self f inp t0 = Some t) \<and>
     (\<forall>i<length (GetInteriorNodes f). \<exists>tA SI SM.
        phaseA_before f inp t0 i = Some (tA, SI, SM) \<and>
        phaseA f inp t0 = Option.bind (phaseA_before f inp t0 i) (phaseA_loop f inp (Suc i)) \<and>
        (\<forall>p<2. IsTargetInterior (edgeAt f i p) \<longrightarrow>
           i < GetTargetNodeIndex (edgeAt f i p) \<and>
           GetTargetNodeIndex (edgeAt f i p) < length SM \<and>
           (\<exists>sel eo si. SM ! GetTargetNodeIndex (edgeAt f i p) = [(sel, 0, 0)] \<and>
              sel < length (model tA) \<and> model tA ! sel = ElementSelectorNode eo si))) \<and>
     (\<exists>tA SI SM. phaseA f inp t0 = Some (tA, SI, SM) \<and>
        (\<forall>i<length (GetInteriorNodes f). \<exists>tB EI INC.
           phaseB_before f SI tA i = Some (tB, EI, INC) \<and>
           phaseB f SI tA = Option.bind (phaseB_before f SI tA i)
                              (foldM (phaseB_body f SI) [i..<length (GetInteriorNodes f)]) \<and>
           i < length INC \<and> i < length SI \<and>
           (INC ! i \<noteq> - 1 \<longrightarrow>
              0 \<le> INC ! i \<and> nat (INC ! i) < length EI \<and>
              (\<exists>p q r. p < i \<and> q < 2 \<and> leadsTo f p q i \<and>
                 nat (INC ! i) = GetFirstEdgeIndex (GetInteriorNodes f ! p) + q \<and>
                 EI ! nat (INC ! i) = [r]))))"
proof (intro conjI)
  let ?K = "length (GetInteriorNodes f)"
  have ev: "evaluates sp epf t0 env0" using assms(2) by (simp add: evaluates_with_def)
  have wf: "wf_forest f" using assms(1) .
  have inp: "read_doubles env0 inp = Some x" using assms(3) .
  from RefineNode_phases[OF wf ev inp, of self]
  obtain tA SI SM envA where
    pA: "phaseA f inp t0 = Some (tA, SI, SM)" and evA: "evaluates sp epf tA envA"
    and lSI: "length SI = ?K"
    and okA: "\<forall>j<?K. nodeA_ok sp epf f inp x tA envA j (SI ! j) (SM ! j)"
    and rn: "\<exists>t. RefineNode self f inp t0 = Some t"
    by blast
  show "\<exists>t. RefineNode self f inp t0 = Some t" using rn .
  show "\<forall>i<?K. \<exists>tA SI SM.
        phaseA_before f inp t0 i = Some (tA, SI, SM) \<and>
        phaseA f inp t0 = Option.bind (phaseA_before f inp t0 i) (phaseA_loop f inp (Suc i)) \<and>
        (\<forall>p<2. IsTargetInterior (edgeAt f i p) \<longrightarrow>
           i < GetTargetNodeIndex (edgeAt f i p) \<and>
           GetTargetNodeIndex (edgeAt f i p) < length SM \<and>
           (\<exists>sel eo si. SM ! GetTargetNodeIndex (edgeAt f i p) = [(sel, 0, 0)] \<and>
              sel < length (model tA) \<and> model tA ! sel = ElementSelectorNode eo si))"
  proof (intro allI impI)
    fix i assume i: "i < ?K"
    from phaseA_before_inv[OF wf ev inp i] obtain s where
      s: "phaseA_before f inp t0 i = Some s" "invA sp epf f inp x t0 env0 (Suc i) s" by blast
    obtain t1 SI1 SM1 where s1: "s = (t1, SI1, SM1)" by (cases s)
    from s(2) s1 obtain env1 where lSM1: "length SM1 = ?K"
      and ok1: "\<And>j. Suc i \<le> j \<Longrightarrow> j < ?K \<Longrightarrow> nodeA_ok sp epf f inp x t1 env1 j (SI1 ! j) (SM1 ! j)"
      unfolding invA_with_def by auto
    have through: "phaseA f inp t0 = Option.bind (phaseA_before f inp t0 i) (phaseA_loop f inp (Suc i))"
      by (rule phaseA_through) (simp add: wf_static_cast[OF wf] i)
    have reads: "\<forall>p<2. IsTargetInterior (edgeAt f i p) \<longrightarrow>
           i < GetTargetNodeIndex (edgeAt f i p) \<and>
           GetTargetNodeIndex (edgeAt f i p) < length SM1 \<and>
           (\<exists>sel eo si. SM1 ! GetTargetNodeIndex (edgeAt f i p) = [(sel, 0, 0)] \<and>
              sel < length (model t1) \<and> model t1 ! sel = ElementSelectorNode eo si)"
    proof (intro allI impI)
      fix p :: nat assume p: "p < 2" and int: "IsTargetInterior (edgeAt f i p)"
      let ?c = "GetTargetNodeIndex (edgeAt f i p)"
      have "leadsTo f i p ?c" using int by (simp add: leadsTo_def)
      from wf_target[OF wf i p this] have c: "i < ?c" "?c < ?K" by simp_all
      then have "nodeA_ok sp epf f inp x t1 env1 ?c (SI1 ! ?c) (SM1 ! ?c)" using ok1 by simp
      then obtain sel eo si where "SM1 ! ?c = [(sel, 0, 0)]" "sel < length (model t1)"
        "model t1 ! sel = ElementSelectorNode eo si"
        unfolding nodeA_ok_with_def by blast
      with c lSM1 show "i < ?c \<and> ?c < length SM1 \<and>
           (\<exists>sel eo si. SM1 ! ?c = [(sel, 0, 0)] \<and>
              sel < length (model t1) \<and> model t1 ! sel = ElementSelectorNode eo si)"
        by auto
    qed
    from s(1) s1 through reads
    show "\<exists>tA SI SM.
        phaseA_before f inp t0 i = Some (tA, SI, SM) \<and>
        phaseA f inp t0 = Option.bind (phaseA_before f inp t0 i) (phaseA_loop f inp (Suc i)) \<and>
        (\<forall>p<2. IsTargetInterior (edgeAt f i p) \<longrightarrow>
           i < GetTargetNodeIndex (edgeAt f i p) \<and>
           GetTargetNodeIndex (edgeAt f i p) < length SM \<and>
           (\<exists>sel eo si. SM ! GetTargetNodeIndex (edgeAt f i p) = [(sel, 0, 0)] \<and>
              sel < length (model tA) \<and> model tA ! sel = ElementSelectorNode eo si))"
      by blast
  qed
  have SIok: "\<And>j. j < ?K \<Longrightarrow> eval_pe envA (SI ! j) = Some [B (splitOf sp f x j)]"
    using okA by (simp add: nodeA_ok_with_def)
  have "\<forall>i<?K. \<exists>tB EI INC.
           phaseB_before f SI tA i = Some (tB, EI, INC) \<and>
           phaseB f SI tA = Option.bind (phaseB_before f SI tA i) (foldM (phaseB_body f SI) [i..<?K]) \<and>
           i < length INC \<and> i < length SI \<and>
           (INC ! i \<noteq> - 1 \<longrightarrow>
              0 \<le> INC ! i \<and> nat (INC ! i) < length EI \<and>
              (\<exists>p q r. p < i \<and> q < 2 \<and> leadsTo f p q i \<and>
                 nat (INC ! i) = GetFirstEdgeIndex (GetInteriorNodes f ! p) + q \<and>
                 EI ! nat (INC ! i) = [r]))"
  proof (intro allI impI)
    fix i assume i: "i < ?K"
    then have iK: "i \<le> ?K" by simp
    from phaseB_before_inv[OF wf evA lSI SIok iK] obtain s where
      s: "phaseB_before f SI tA i = Some s" "invB sp epf f x SI tA envA i s" by blast
    obtain tB EI and INC :: "int list" where s1: "s = (tB, EI, INC)" by (cases s)
    from s(2) s1 obtain env where lEI: "length EI = NumEdges f" and lINC: "length INC = ?K"
      and inc: "\<And>c. c < ?K \<Longrightarrow>
             (\<forall>p q. p < i \<and> q < 2 \<and> leadsTo f p q c \<longrightarrow> INC ! c = int (2 * p + q)) \<and>
             ((\<forall>p q. p < i \<and> q < 2 \<longrightarrow> \<not> leadsTo f p q c) \<longrightarrow> INC ! c = - 1)"
      and ok: "\<And>j. j < i \<Longrightarrow> nodeB_ok sp f x tB env SI EI j"
      unfolding invB_with_def by auto
    have through: "phaseB f SI tA = Option.bind (phaseB_before f SI tA i) (foldM (phaseB_body f SI) [i..<?K])"
      using phaseB_through[OF iK] .
    have reads: "INC ! i \<noteq> - 1 \<longrightarrow>
              0 \<le> INC ! i \<and> nat (INC ! i) < length EI \<and>
              (\<exists>p q r. p < i \<and> q < 2 \<and> leadsTo f p q i \<and>
                 nat (INC ! i) = GetFirstEdgeIndex (GetInteriorNodes f ! p) + q \<and>
                 EI ! nat (INC ! i) = [r])"
    proof
      assume "INC ! i \<noteq> - 1"
      with inc[OF i] obtain p q where pq: "p < i" "q < 2" "leadsTo f p q i" by blast
      with inc[OF i] have v: "INC ! i = int (2 * p + q)" by blast
      have pK: "p < ?K" using pq(1) i by simp
      have inr: "2 * p + q < length EI" using lEI wf_numEdges[OF wf] pK pq(2) by simp
      from pq(2) have "q = 0 \<or> q = 1" by auto
      with ok[OF pq(1)] have "\<exists>vs. eval_pe env (EI ! (2 * p + q)) = Some [vs]"
        by (auto simp: nodeB_ok_def)
      then obtain vs where "eval_pe env (EI ! (2 * p + q)) = Some [vs]" by blast
      from eval_pe_length[OF this] have "length (EI ! (2 * p + q)) = 1" by simp
      then obtain r where r: "EI ! (2 * p + q) = [r]" by (cases "EI ! (2 * p + q)") simp_all
      have n: "nat (INC ! i) = 2 * p + q" unfolding v by (rule nat_int)
      have "p < i \<and> q < 2 \<and> leadsTo f p q i \<and>
                 2 * p + q = GetFirstEdgeIndex (GetInteriorNodes f ! p) + q \<and>
                 EI ! (2 * p + q) = [r]"
        using pq r wf_firstEdge[OF wf pK] by simp
      then have "\<exists>p' q' r. p' < i \<and> q' < 2 \<and> leadsTo f p' q' i \<and>
                 2 * p + q = GetFirstEdgeIndex (GetInteriorNodes f ! p') + q' \<and>
                 EI ! (2 * p + q) = [r]" by blast
      moreover have "0 \<le> INC ! i" unfolding v by simp
      ultimately show "0 \<le> INC ! i \<and> nat (INC ! i) < length EI \<and>
              (\<exists>p q r. p < i \<and> q < 2 \<and> leadsTo f p q i \<and>
                 nat (INC ! i) = GetFirstEdgeIndex (GetInteriorNodes f ! p) + q \<and>
                 EI ! nat (INC ! i) = [r])"
        unfolding n using inr by blast
    qed
    from s(1) s1 through lINC lSI i reads
    show "\<exists>tB EI INC.
           phaseB_before f SI tA i = Some (tB, EI, INC) \<and>
           phaseB f SI tA = Option.bind (phaseB_before f SI tA i) (foldM (phaseB_body f SI) [i..<?K]) \<and>
           i < length INC \<and> i < length SI \<and>
           (INC ! i \<noteq> - 1 \<longrightarrow>
              0 \<le> INC ! i \<and> nat (INC ! i) < length EI \<and>
              (\<exists>p q r. p < i \<and> q < 2 \<and> leadsTo f p q i \<and>
                 nat (INC ! i) = GetFirstEdgeIndex (GetInteriorNodes f ! p) + q \<and>
                 EI ! nat (INC ! i) = [r]))"
      by auto
  qed
  with pA show "\<exists>tA SI SM. phaseA f inp t0 = Some (tA, SI, SM) \<and>
        (\<forall>i<?K. \<exists>tB EI INC.
           phaseB_before f SI tA i = Some (tB, EI, INC) \<and>
           phaseB f SI tA = Option.bind (phaseB_before f SI tA i) (foldM (phaseB_body f SI) [i..<?K]) \<and>
           i < length INC \<and> i < length SI \<and>
           (INC ! i \<noteq> - 1 \<longrightarrow>
              0 \<le> INC ! i \<and> nat (INC ! i) < length EI \<and>
              (\<exists>p q r. p < i \<and> q < 2 \<and> leadsTo f p q i \<and>
                 nat (INC ! i) = GetFirstEdgeIndex (GetInteriorNodes f ! p) + q \<and>
                 EI ! nat (INC ! i) = [r])))"
    by blast
qed

lemma incoming_example:
  "(case phaseA twoTreeForest exampleInput exampleTransformer of
      None \<Rightarrow> False
    | Some (tA, SI, SM) \<Rightarrow>
        (case phaseB_before twoTreeForest SI tA 1 of
           None \<Rightarrow> False
         | Some (tB, EI, INC) \<Rightarrow> INC ! 1 = 1))"
  by code_simp

lemma edge_example:
  "IsTargetInterior (edgeAt twoTreeForest 0 1)" "GetTargetNodeIndex (edgeAt twoTreeForest 0 1) = 1"
  by (simp_all add: edgeAt_def twoTreeForest_def)

theorem RefineNode_reads_assigned_entries_witness:
  "wf_forest twoTreeForest \<and>
   EvaluateModel thresholdRule constantPredictor (model exampleTransformer) = Some [[[D 1, D 1]]] \<and>
   read_doubles [[[D 1, D 1]]] exampleInput = Some [1, 1] \<and>
   (\<exists>t. RefineNode 7 twoTreeForest exampleInput exampleTransformer = Some t) \<and>
   IsTargetInterior (edgeAt twoTreeForest 0 1) \<and>
   GetTargetNodeIndex (edgeAt twoTreeForest 0 1) = 1 \<and>
   (\<exists>tA SI SM sel eo si.
      phaseA_before twoTreeForest exampleInput exampleTransformer 0 = Some (tA, SI, SM) \<and>
      1 < length SM \<and> SM ! 1 = [(sel, 0, 0)] \<and> model tA ! sel = ElementSelectorNode eo si) \<and>
   (\<exists>tA SI SM tB EI INC r.
      phaseA twoTreeForest exampleInput exampleTransformer = Some (tA, SI, SM) \<and>
      phaseB_before twoTreeForest SI tA 1 = Some (tB, EI, INC) \<and>
      INC ! 1 = 1 \<and> EI ! 1 = [r])"
proof -
  note th = RefineNode_reads_assigned_entries[OF wf_twoTreeForest ev_example inp_example, of 7]
  have K: "length (GetInteriorNodes twoTreeForest) = 3" by (simp add: twoTreeForest_def)
  from th have r: "\<exists>t. RefineNode 7 twoTreeForest exampleInput exampleTransformer = Some t"
    by blast
  from th have "\<forall>i<length (GetInteriorNodes twoTreeForest). \<exists>tA SI SM.
        phaseA_before twoTreeForest exampleInput exampleTransformer i = Some (tA, SI, SM) \<and>
        phaseA twoTreeForest exampleInput exampleTransformer =
          Option.bind (phaseA_before twoTreeForest exampleInput exampleTransformer i)
            (phaseA_loop twoTreeForest exampleInput (Suc i)) \<and>
        (\<forall>p<2. IsTargetInterior (edgeAt twoTreeForest i p) \<longrightarrow>
           i < GetTargetNodeIndex (edgeAt twoTreeForest i p) \<and>
           GetTargetNodeIndex (edgeAt twoTreeForest i p) < length SM \<and>
           (\<exists>sel eo si. SM ! GetTargetNodeIndex (edgeAt twoTreeForest i p) = [(sel, 0, 0)] \<and>
              sel < length (model tA) \<and> model tA ! sel = ElementSelectorNode eo si))"
    by blast
  then obtain tA SI SM where
    a: "phaseA_before twoTreeForest exampleInput exampleTransformer 0 = Some (tA, SI, SM)"
    "\<forall>p<2. IsTargetInterior (edgeAt twoTreeForest 0 p) \<longrightarrow>
           0 < GetTargetNodeIndex (edgeAt twoTreeForest 0 p) \<and>
           GetTargetNodeIndex (edgeAt twoTreeForest 0 p) < length SM \<and>
           (\<exists>sel eo si. SM ! GetTargetNodeIndex (edgeAt twoTreeForest 0 p) = [(sel, 0, 0)] \<and>
              sel < length (model tA) \<and> model tA ! sel = ElementSelectorNode eo si)"
    unfolding K by (metis zero_less_numeral)
  from a(2)[rule_format, of 1] edge_example obtain sel eo si where
    "1 < length SM" "SM ! 1 = [(sel, 0, 0)]" "model tA ! sel = ElementSelectorNode eo si"
    by auto
  with a(1) have partA: "\<exists>tA SI SM sel eo si.
      phaseA_before twoTreeForest exampleInput exampleTransformer 0 = Some (tA, SI, SM) \<and>
      1 < length SM \<and> SM ! 1 = [(sel, 0, 0)] \<and> model tA ! sel = ElementSelectorNode eo si"
    by blast
  from th obtain tA' SI' SM' where
    b: "phaseA twoTreeForest exampleInput exampleTransformer = Some (tA', SI', SM')"
    "\<forall>i<length (GetInteriorNodes twoTreeForest). \<exists>tB EI INC.
           phaseB_before twoTreeForest SI' tA' i = Some (tB, EI, INC) \<and>
           phaseB twoTreeForest SI' tA' = Option.bind (phaseB_before twoTreeForest SI' tA' i)
              (foldM (phaseB_body twoTreeForest SI') [i..<length (GetInteriorNodes twoTreeForest)]) \<and>
           i < length INC \<and> i < length SI' \<and>
           (INC ! i \<noteq> - 1 \<longrightarrow>
              0 \<le> INC ! i \<and> nat (INC ! i) < length EI \<and>
              (\<exists>p q r. p < i \<and> q < 2 \<and> leadsTo twoTreeForest p q i \<and>
                 nat (INC ! i) = GetFirstEdgeIndex (GetInteriorNodes twoTreeForest ! p) + q \<and>
                 EI ! nat (INC ! i) = [r]))"
    by blast
  from b(2)[rule_format, of 1] obtain tB EI and INC :: "int list" where
    c: "phaseB_before twoTreeForest SI' tA' 1 = Some (tB, EI, INC)"
    "INC ! 1 \<noteq> - 1 \<longrightarrow> (\<exists>p q r. EI ! nat (INC ! 1) = [r])"
    unfolding K by auto
  from incoming_example b(1) c(1) have inc: "INC ! 1 = 1" by simp
  with c(2) obtain r' where "EI ! 1 = [r']" by auto
  with b(1) c(1) inc have partB: "\<exists>tA SI SM tB EI INC r.
      phaseA twoTreeForest exampleInput exampleTransformer = Some (tA, SI, SM) \<and>
      phaseB_before twoTreeForest SI tA 1 = Some (tB, EI, INC) \<and>
      INC ! 1 = 1 \<and> EI ! 1 = [r]"
    by blast
  from wf_twoTreeForest ev_example inp_example r edge_example partA partB show ?thesis by blast
qed

section \<open>CompressedIntegerList: pushing and reading\<close>

subsection \<open>Pushing\<close>

fun deltas :: "uint64 \<Rightarrow> uint64 list \<Rightarrow> uint64 list" where
  "deltas prev [] = []"
| "deltas prev (v # vs) = (v - prev) # deltas v vs"

fun runningSums :: "uint64 \<Rightarrow> uint64 list \<Rightarrow> uint64 list" where
  "runningSums v [] = []"
| "runningSums v (d # ds) = (v + d) # runningSums (v + d) ds"

lemma runningSums_deltas: "runningSums prev (deltas prev vs) = vs"
  by (induction vs arbitrary: prev) simp_all

lemma length_deltas: "length (deltas prev vs) = length vs"
  by (induction vs arbitrary: prev) simp_all

lemma unat_succ:
  fixes x :: uint64
  assumes "unat x + 1 < 2 ^ 64"
  shows "unat (x + 1) = unat x + 1" and "x + 1 \<noteq> 0"
proof -
  show u: "unat (x + 1) = unat x + 1"
    using assms by (simp add: unat_word_ariths(1) )
  show "x + 1 \<noteq> 0"
  proof
    assume "x + 1 = 0"
    hence "unat (x + 1) = 0" by simp
    with u show False by simp
  qed
qed

lemma PushBack_accepts:
  assumes "Max_list l \<le> v"
  shows "PushBack c v l =
    (None, \<lparr>list_mem = list_mem l @ encode c (v - Max_list l), list_last = v,
            list_size = list_size l + 1\<rparr>)"
  using assms by (auto simp: PushBack_def Max_list_def)

lemma PushBackAll_spec:
  assumes "unat (list_size l) + length vs < 2 ^ 64" and "sorted (Max_list l # vs)"
  shows "PushBackAll c vs l =
    (None, \<lparr>list_mem = list_mem l @ concat (map (encode c) (deltas (Max_list l) vs)),
            list_last = last (list_last l # vs),
            list_size = list_size l + word_of_nat (length vs)\<rparr>)"
  using assms
proof (induction vs arbitrary: l)
  case Nil
  show ?case by simp
next
  case (Cons v vs)
  let ?l = "\<lparr>list_mem = list_mem l @ encode c (v - Max_list l), list_last = v,
            list_size = list_size l + 1\<rparr>"
  from Cons.prems have le: "Max_list l \<le> v" by simp
  from Cons.prems have small: "unat (list_size l) + 1 < 2 ^ 64" by simp
  have pb: "PushBack c v l = (None, ?l)" by (rule PushBack_accepts [OF le])
  have sz: "unat (list_size ?l) = unat (list_size l) + 1" and nz: "list_size ?l \<noteq> 0"
    using unat_succ [OF small] by simp_all
  have mx: "Max_list ?l = v" using nz by (simp add: Max_list_def)
  have a1: "unat (list_size ?l) + length vs < 2 ^ 64" using Cons.prems(1) sz by simp
  have a2: "sorted (Max_list ?l # vs)" using Cons.prems(2) mx by simp
  have "PushBackAll c (v # vs) l = PushBackAll c vs ?l" by (simp add: pb)
  also note Cons.IH [OF a1 a2]
  finally show ?case by (simp add: mx)
qed

lemma Max_list_EmptyList: "Max_list EmptyList = 0"
  by (simp add: Max_list_def EmptyList_def)

lemma PushBackAll_EmptyList:
  assumes "length vs < 2 ^ 64" and "sorted vs"
  shows "PushBackAll c vs EmptyList =
    (None, \<lparr>list_mem = concat (map (encode c) (deltas 0 vs)),
            list_last = last (0 # vs), list_size = word_of_nat (length vs)\<rparr>)"
proof -
  have a1: "unat (list_size EmptyList) + length vs < 2 ^ 64"
    using assms(1) by (simp add: EmptyList_def)
  have a2: "sorted (Max_list EmptyList # vs)" using assms(2) by (simp add: Max_list_EmptyList)
  show ?thesis
    using PushBackAll_spec [OF a1 a2, of c] by (simp add: Max_list_EmptyList) (simp add: EmptyList_def)
qed

subsection \<open>Reading\<close>

lemma codec_ok_decode:
  "codec_ok c \<Longrightarrow> decode c (encode c d @ rest) = Some (d, length (encode c d))"
  by (simp add: codec_ok_def)

lemma codec_ok_nonempty: "codec_ok c \<Longrightarrow> 0 < length (encode c d)"
  by (simp add: codec_ok_def)

lemma iterate_invalid: "\<not> IsValid it \<Longrightarrow> iterate c fuel it = Some (Inr [])"
  by simp

lemma iterate_spec:
  assumes "codec_ok c"
    and "iter_mem it = pre @ encode c d @ concat (map (encode c) ds)"
    and "iter_pos it = length pre" and "iter_end it = length (iter_mem it)"
    and "iter_increment it = length (encode c d)"
    and "length ds < fuel"
  shows "iterate c fuel it = Some (Inr (iter_value it # runningSums (iter_value it) ds))"
  using assms(2-)
proof (induction ds arbitrary: it pre d fuel)
  case Nil
  from Nil.prems obtain n where fuel: "fuel = Suc n" by (cases fuel) auto
  have valid: "IsValid it"
    using Nil.prems codec_ok_nonempty [OF assms(1), of d] by (simp add: IsValid_def)
  have adv: "advance c it = Inr (it\<lparr>iter_pos := iter_pos it + iter_increment it, iter_increment := 0\<rparr>)"
    using Nil.prems by (simp add: advance_def Let_def)
  have inv: "\<not> IsValid (it\<lparr>iter_pos := iter_pos it + iter_increment it, iter_increment := 0\<rparr>)"
    using Nil.prems by (simp add: IsValid_def)
  have "iterate c (Suc n) it =
      map_option (map_sum id ((#) (iter_value it)))
        (iterate c n (it\<lparr>iter_pos := iter_pos it + iter_increment it, iter_increment := 0\<rparr>))"
    using valid adv by (subst iterate.simps) (simp add: Get_def Next_def)
  also have "\<dots> = Some (Inr [iter_value it])"
    by (simp only: iterate_invalid [OF inv]) simp
  finally show ?case by (simp add: fuel)
next
  case (Cons e es)
  from Cons.prems obtain n where fuel: "fuel = Suc n" and n: "length es < n"
    by (cases fuel) auto
  have valid: "IsValid it"
    using Cons.prems codec_ok_nonempty [OF assms(1), of d] by (simp add: IsValid_def)
  let ?pos = "iter_pos it + iter_increment it"
  let ?it = "it\<lparr>iter_pos := ?pos, iter_value := iter_value it + e,
                iter_increment := length (encode c e)\<rparr>"
  have pos: "?pos = length (pre @ encode c d)" using Cons.prems by simp
  have mem: "iter_mem it = (pre @ encode c d) @ encode c e @ concat (map (encode c) es)"
    using Cons.prems by simp
  have dr: "drop ?pos (iter_mem it) = encode c e @ concat (map (encode c) es)"
    unfolding pos mem by simp
  have lt: "?pos < iter_end it"
    using Cons.prems(3) codec_ok_nonempty [OF assms(1), of e] unfolding pos mem by simp
  have adv: "advance c it = Inr ?it"
    using lt by (simp add: advance_def Let_def dr codec_ok_decode [OF assms(1)])
  have ih: "iterate c n ?it = Some (Inr (iter_value ?it # runningSums (iter_value ?it) es))"
  proof (rule Cons.IH [where pre = "pre @ encode c d" and d = e])
    show "iter_mem ?it = (pre @ encode c d) @ encode c e @ concat (map (encode c) es)"
      using mem by simp
    show "iter_pos ?it = length (pre @ encode c d)" using pos by simp
    show "iter_end ?it = length (iter_mem ?it)" using Cons.prems(3) by simp
    show "iter_increment ?it = length (encode c e)" by simp
    show "length es < n" by (rule n)
  qed
  have "iterate c (Suc n) it = map_option (map_sum id ((#) (iter_value it))) (iterate c n ?it)"
    using valid adv by (subst iterate.simps) (simp add: Get_def Next_def)
  also have "\<dots> = Some (Inr (iter_value it # runningSums (iter_value it) (e # es)))"
    by (simp only: ih) simp
  finally show ?case by (simp add: fuel)
qed

lemma readAll_spec:
  assumes "codec_ok c" and "list_mem l = concat (map (encode c) ds)" and "length ds \<le> fuel"
  shows "readAll c fuel l = Some (Inr (runningSums 0 ds))"
proof (cases ds)
  case Nil
  with assms(2) have "GetIterator c l = Inr \<lparr>iter_mem = [], iter_pos = 0, iter_end = 0,
      iter_value = 0, iter_increment = 0\<rparr>"
    by (simp add: GetIterator_def advance_def)
  thus ?thesis using Nil by (simp add: readAll_def IsValid_def)
next
  case (Cons d es)
  let ?it = "\<lparr>iter_mem = list_mem l, iter_pos = 0, iter_end = length (list_mem l),
      iter_value = d, iter_increment = length (encode c d)\<rparr>"
  have mem: "list_mem l = encode c d @ concat (map (encode c) es)"
    using assms(2) Cons by simp
  have pos: "0 < length (list_mem l)"
    using codec_ok_nonempty [OF assms(1), of d] unfolding mem by simp
  have "decode c (list_mem l) = Some (d, length (encode c d))"
    unfolding mem by (rule codec_ok_decode [OF assms(1)])
  with pos have gi: "GetIterator c l = Inr ?it"
    by (simp add: GetIterator_def advance_def)
  have "iterate c fuel ?it = Some (Inr (iter_value ?it # runningSums (iter_value ?it) es))"
  proof (rule iterate_spec [OF assms(1), where pre = "[]" and d = d])
    show "iter_mem ?it = [] @ encode c d @ concat (map (encode c) es)" using mem by simp
    show "length es < fuel" using assms(3) Cons by simp
  qed simp_all
  thus ?thesis using Cons by (simp add: readAll_def gi)
qed

subsection \<open>The example byte format round-trips\<close>

lemma escapeDecodeNat_run:
  assumes "m < 255"
  shows "escapeDecodeNat (replicate k 255 @ word_of_nat m # rest) = Some (255 * k + m, Suc k)"
proof (induction k)
  case 0
  from assms have "unat (word_of_nat m :: uint8) = m" by (simp add: unat_of_nat)
  moreover from this assms have "(word_of_nat m :: uint8) \<noteq> 255" by auto
  ultimately show ?case by simp
next
  case (Suc k)
  thus ?case by simp
qed

lemma escapeCodec_ok: "codec_ok escapeCodec"
proof -
  have dec: "escapeDecode (escapeEncode d @ rest) = Some (d, length (escapeEncode d))" for d rest
  proof -
    have "escapeDecodeNat (escapeEncode d @ rest) =
        Some (255 * (unat d div 255) + unat d mod 255, Suc (unat d div 255))"
      unfolding escapeEncode_def using escapeDecodeNat_run [of "unat d mod 255"] by simp
    thus ?thesis by (simp add: escapeDecode_def escapeEncode_def)
  qed
  have ne: "escapeEncode d \<noteq> []" for d by (simp add: escapeEncode_def)
  show ?thesis unfolding codec_ok_def escapeCodec_def using dec ne by simp
qed


subsection \<open>An example list\<close>

definition exampleList :: CompressedIntegerList where
  "exampleList = \<lparr>list_mem = [0, 0, 3, 0, 7], list_last = 10, list_size = 5\<rparr>"

lemma pushed_example: "PushBackAll escapeCodec [0, 0, 3, 3, 10] EmptyList = (None, exampleList)"
  by (simp add: PushBack_def EmptyList_def exampleList_def escapeCodec_def escapeEncode_def)

lemma read_example: "readAll escapeCodec 5 exampleList = Some (Inr [0, 0, 3, 3, 10])"
  by code_simp

lemma sorted_example: "sorted [0, 0, 3, 3, 10 :: uint64]"
  by simp

text \<open>
  C7. Whatever byte format encodes the deltas, as long as it round-trips: pushing a
  non-decreasing sequence of 64-bit values, fewer than \<open>2 ^ 64\<close> of them, into a fresh list
  succeeds at every push; reading the list with GetIterator, Get and Next until the
  iterator is no longer valid ends, given fuel for one round per value, and yields
  exactly the pushed values in order; Size is the number of values; Max_list is the last
  value, and 0 when nothing was pushed.
\<close>

theorem PushBack_then_iterate_round_trip:
  assumes "codec_ok c" and "sorted vs" and "length vs < 2 ^ 64" and "length vs \<le> fuel"
  shows "\<exists>l. PushBackAll c vs EmptyList = (None, l) \<and>
           readAll c fuel l = Some (Inr vs) \<and>
           unat (Size l) = length vs \<and>
           Max_list l = (if vs = [] then 0 else last vs)"
proof -
  let ?l = "\<lparr>list_mem = concat (map (encode c) (deltas 0 vs)),
            list_last = last (0 # vs), list_size = word_of_nat (length vs)\<rparr>"
  have push: "PushBackAll c vs EmptyList = (None, ?l)"
    by (rule PushBackAll_EmptyList [OF assms(3) assms(2)])
  have "readAll c fuel ?l = Some (Inr (runningSums 0 (deltas 0 vs)))"
    using assms(4) by (intro readAll_spec [OF assms(1)]) (simp_all add: length_deltas)
  hence rd: "readAll c fuel ?l = Some (Inr vs)" by (simp only: runningSums_deltas)
  have sz: "unat (Size ?l) = length vs"
    using assms(3) by (simp add: Size_def unat_of_nat)
  have "list_size ?l = 0 \<longleftrightarrow> vs = []"
  proof
    assume "list_size ?l = 0"
    hence "unat (Size ?l) = 0" by (simp add: Size_def)
    with sz show "vs = []" by simp
  qed simp
  hence mx: "Max_list ?l = (if vs = [] then 0 else last vs)" by (simp add: Max_list_def)
  from push rd sz mx show ?thesis by blast
qed

theorem PushBack_then_iterate_round_trip_witness:
  "codec_ok escapeCodec \<and> sorted [0, 0, 3, 3, 10 :: uint64] \<and>
   PushBackAll escapeCodec [0, 0, 3, 3, 10] EmptyList = (None, exampleList) \<and>
   readAll escapeCodec 5 exampleList = Some (Inr [0, 0, 3, 3, 10]) \<and>
   unat (Size exampleList) = 5 \<and> Max_list exampleList = 10"
  using PushBack_then_iterate_round_trip [OF escapeCodec_ok sorted_example, of 5]
    escapeCodec_ok sorted_example pushed_example
  by simp

text \<open>
  C8. In every state of the list, PushBack of a value strictly below Max_list, the last pushed
  value, signals the invalid-argument condition and returns the list as it was: Size,
  Max_list and the outcome of reading the list, for every fuel, are those of before the call.
\<close>

theorem PushBack_rejects_smaller_value:
  assumes "v < Max_list l"
  shows "fst (PushBack c v l) = Some InvalidArgument \<and>
         snd (PushBack c v l) = l \<and>
         Size (snd (PushBack c v l)) = Size l \<and>
         Max_list (snd (PushBack c v l)) = Max_list l \<and>
         readAll c fuel (snd (PushBack c v l)) = readAll c fuel l"
proof -
  from assms have "list_size l \<noteq> 0 \<and> v < list_last l"
    by (auto simp: Max_list_def split: if_splits)
  hence "PushBack c v l = (Some InvalidArgument, l)" by (simp add: PushBack_def)
  thus ?thesis by simp
qed

theorem PushBack_rejects_smaller_value_witness:
  "(9 :: uint64) < Max_list exampleList \<and>
   fst (PushBack escapeCodec 9 exampleList) = Some InvalidArgument \<and>
   snd (PushBack escapeCodec 9 exampleList) = exampleList \<and>
   Size (snd (PushBack escapeCodec 9 exampleList)) = 5 \<and>
   Max_list (snd (PushBack escapeCodec 9 exampleList)) = 10 \<and>
   readAll escapeCodec 5 (snd (PushBack escapeCodec 9 exampleList)) = Some (Inr [0, 0, 3, 3, 10])"
proof -
  have lt: "(9 :: uint64) < Max_list exampleList" by (simp add: Max_list_def exampleList_def)
  have sz: "Size exampleList = 5" and mx: "Max_list exampleList = 10"
    by (simp_all add: Size_def Max_list_def exampleList_def)
  from PushBack_rejects_smaller_value [OF lt, of escapeCodec 5] lt sz mx read_example
  show ?thesis by simp
qed

end
